theory Spec2Isabelle
  imports Main
begin

section \<open>The small-object, copy-on-write vector of \<^verbatim>\<open>socow-vector.h\<close>\<close>

text \<open>
  The class template \<^verbatim>\<open>socow_vector<T, SMALL_SIZE>\<close> keeps its elements either in an
  array inside the handle or in a reference-counted heap block that several handles
  may share. The model keeps the heap blocks in an explicit store indexed by address,
  so that two handles holding the same address alias the same block.

  Conventions of the embedding.
  \<^item> A slot of an array is \<open>Some x\<close> while a \<open>T\<close> object lives in it and \<open>None\<close> while
    it is raw storage.
  \<^item> A call either returns (\<open>Done\<close>), leaves by an exception (\<open>Threw\<close>, with the state
    the caller sees after unwinding), or stops the program (\<open>Abort\<close>: a failed
    \<^verbatim>\<open>assert\<close>, or behaviour C++ leaves undefined such as reading through a dangling
    pointer or reading a slot that holds no object).
  \<^item> The only source of exceptions is the copy constructor of \<open>T\<close>; \<^verbatim>\<open>operator new\<close> is
    taken to succeed and hands out addresses \<open>next_addr\<close>, \<open>next_addr + 1\<close>, ...
  \<^item> \<^verbatim>\<open>size_t\<close> is 64 bits wide. Where the source adds to, subtracts from or multiplies a
    capacity, and where it computes the size of an allocation, the model reduces the
    result modulo \<open>2^64\<close> (\<open>size_t\<close>). Sizes and indices are bounded by the number of
    slots of an array and are natural numbers.
\<close>

datatype ('a, 'e) outcome = Done 'a | Threw 'e | Abort

text \<open>
  What the template leaves open: the inline capacity, which invocations of the copy
  constructor of \<open>T\<close> throw (by their running number), whether \<^verbatim>\<open>std::swap<T>\<close> has
  to go through the copy constructor (a \<open>T\<close> without move constructor) or not, and
  \<^verbatim>\<open>sizeof(T)\<close>.
\<close>

record env =
  SMALL_SIZE :: nat
  copy_throws :: "nat \<Rightarrow> bool"
  swap_copies :: bool
  sizeof_T :: nat

record 'a dynamic_storage =
  ds_capacity :: nat
  ds_references :: nat
  ds_data :: "'a option list"

record 'a world =
  heap :: "nat \<Rightarrow> 'a dynamic_storage option"
  next_addr :: nat
  copies :: nat

text \<open>
  The handle. In the source \<^verbatim>\<open>_static_data\<close> and \<^verbatim>\<open>_dynamic_data\<close> are the two members
  of a union; the model keeps them as two fields and \<open>None\<close> is the null pointer.
\<close>

record 'a socow_vector =
  sv_size :: nat
  is_small :: bool
  static_data :: "'a option list"
  dynamic_data :: "nat option"

type_synonym 'a vres =
  "('a world \<times> 'a socow_vector, 'a world \<times> 'a socow_vector) outcome"

text \<open>
  The value of a \<^verbatim>\<open>size_t\<close> expression whose mathematical value is \<open>n\<close>, the difference
  \<open>a - b\<close> of two \<^verbatim>\<open>size_t\<close> values, and \<^verbatim>\<open>sizeof(dynamic_storage)\<close>: two \<^verbatim>\<open>size_t\<close> members
  and an array of length zero.
\<close>

definition size_t :: "nat \<Rightarrow> nat" where
  "size_t n = n mod 2 ^ 64"

definition size_t_minus :: "nat \<Rightarrow> nat \<Rightarrow> nat" where
  "size_t_minus a b = (if b \<le> a then a - b else size_t (a + 2 ^ 64 - b))"

definition sizeof_storage :: nat where
  "sizeof_storage = 16"

subsection \<open>Element operations and raw-storage algorithms\<close>

text \<open>\<^verbatim>\<open>T(value)\<close>: one invocation of the copy constructor; \<open>None\<close> when it throws.\<close>

definition copy_construct :: "env \<Rightarrow> 'a world \<Rightarrow> 'a \<Rightarrow> 'a world \<times> 'a option" where
  "copy_construct E w x =
     (w\<lparr>copies := Suc (copies w)\<rparr>, if copy_throws E (copies w) then None else Some x)"

text \<open>\<^verbatim>\<open>std::swap(a, b)\<close> on two \<open>T\<close> objects; \<open>None\<close> when the temporary's constructor throws.\<close>

definition swap_T :: "env \<Rightarrow> 'a world \<Rightarrow> 'a \<Rightarrow> 'a \<Rightarrow> 'a world \<times> ('a \<times> 'a) option" where
  "swap_T E w x y =
     (if swap_copies E then
        (case copy_construct E w x of
           (w', None) \<Rightarrow> (w', None)
         | (w', Some t) \<Rightarrow> (w', Some (y, t)))
      else (w, Some (y, x)))"

text \<open>\<^verbatim>\<open>std::destroy_n(p + first, n)\<close> on the array \<open>p\<close> points to.\<close>

fun destroy_n :: "'a option list \<Rightarrow> nat \<Rightarrow> nat \<Rightarrow> 'a option list" where
  "destroy_n xs first 0 = xs"
| "destroy_n xs first (Suc n) = destroy_n (xs[first := None]) (Suc first) n"

text \<open>
  \<^verbatim>\<open>std::uninitialized_copy_n(src, n, dst + first)\<close>: copy-constructs \<open>src[i]\<close> into
  \<open>dst[first + i]\<close> for \<open>i < n\<close>; when a copy throws, the objects built so far are
  destroyed and the exception goes on.
\<close>

fun uninitialized_copy_loop ::
  "env \<Rightarrow> 'a world \<Rightarrow> 'a option list \<Rightarrow> 'a option list \<Rightarrow> nat \<Rightarrow> nat \<Rightarrow> nat
     \<Rightarrow> ('a world \<times> 'a option list, 'a world \<times> 'a option list) outcome" where
  "uninitialized_copy_loop E w src dst first i 0 = Done (w, dst)"
| "uninitialized_copy_loop E w src dst first i (Suc n) =
     (if i < length src \<and> first + i < length dst then
        (case src ! i of
           None \<Rightarrow> Abort
         | Some x \<Rightarrow>
             (case copy_construct E w x of
                (w', None) \<Rightarrow> Threw (w', destroy_n dst first i)
              | (w', Some y) \<Rightarrow>
                  uninitialized_copy_loop E w' src (dst[first + i := Some y]) first (Suc i) n))
      else Abort)"

definition uninitialized_copy_n ::
  "env \<Rightarrow> 'a world \<Rightarrow> 'a option list \<Rightarrow> nat \<Rightarrow> 'a option list \<Rightarrow> nat
     \<Rightarrow> ('a world \<times> 'a option list, 'a world \<times> 'a option list) outcome" where
  "uninitialized_copy_n E w src n dst first = uninitialized_copy_loop E w src dst first 0 n"

text \<open>
  \<^verbatim>\<open>std::swap_ranges(xs, xs + n, ys)\<close>; a throwing \<^verbatim>\<open>std::swap\<close> leaves the pairs swapped
  so far swapped.
\<close>

fun swap_ranges_loop ::
  "env \<Rightarrow> 'a world \<Rightarrow> 'a option list \<Rightarrow> 'a option list \<Rightarrow> nat \<Rightarrow> nat
     \<Rightarrow> ('a world \<times> 'a option list \<times> 'a option list,
         'a world \<times> 'a option list \<times> 'a option list) outcome" where
  "swap_ranges_loop E w xs ys i 0 = Done (w, xs, ys)"
| "swap_ranges_loop E w xs ys i (Suc n) =
     (if i < length xs \<and> i < length ys then
        (case (xs ! i, ys ! i) of
           (Some x, Some y) \<Rightarrow>
             (case swap_T E w x y of
                (w', None) \<Rightarrow> Threw (w', xs, ys)
              | (w', Some (x', y')) \<Rightarrow>
                  swap_ranges_loop E w' (xs[i := Some x']) (ys[i := Some y']) (Suc i) n)
         | _ \<Rightarrow> Abort)
      else Abort)"

definition swap_ranges ::
  "env \<Rightarrow> 'a world \<Rightarrow> 'a option list \<Rightarrow> 'a option list \<Rightarrow> nat
     \<Rightarrow> ('a world \<times> 'a option list \<times> 'a option list,
         'a world \<times> 'a option list \<times> 'a option list) outcome" where
  "swap_ranges E w xs ys n = swap_ranges_loop E w xs ys 0 n"

subsection \<open>Buffers and their lifetime\<close>

text \<open>Following a \<^verbatim>\<open>dynamic_storage*\<close>; \<open>None\<close> for a null or dangling pointer.\<close>

definition deref :: "'a world \<Rightarrow> nat option \<Rightarrow> 'a dynamic_storage option" where
  "deref w p = (case p of None \<Rightarrow> None | Some a \<Rightarrow> heap w a)"

text \<open>
  The static \<^verbatim>\<open>dec_references(data, length)\<close> (lines 74-80). When the count reaches
  zero the live elements are destroyed and the block is freed: it leaves the store.
\<close>

definition dec_references_at ::
  "'a world \<Rightarrow> nat option \<Rightarrow> nat \<Rightarrow> ('a world, 'a world) outcome" where
  "dec_references_at w p len =
     (case p of
        None \<Rightarrow> Abort
      | Some a \<Rightarrow>
          (case heap w a of
             None \<Rightarrow> Abort
           | Some d \<Rightarrow>
               if ds_references d = 0 then Abort
               else
                 let d' = d\<lparr>ds_references := ds_references d - 1\<rparr> in
                 if ds_references d' = 0 then Done (w\<lparr>heap := (heap w)(a := None)\<rparr>)
                 else Done (w\<lparr>heap := (heap w)(a \<mapsto> d')\<rparr>)))"

text \<open>The member \<^verbatim>\<open>dec_references()\<close> (lines 66-72).\<close>

definition dec_references :: "'a world \<Rightarrow> 'a socow_vector \<Rightarrow> 'a vres" where
  "dec_references w v =
     (if is_small v then
        Done (w, v\<lparr>static_data := destroy_n (static_data v) 0 (sv_size v)\<rparr>)
      else
        (case dec_references_at w (dynamic_data v) (sv_size v) of
           Done w' \<Rightarrow> Done (w', v)
         | _ \<Rightarrow> Abort))"

text \<open>
  \<^verbatim>\<open>get_new_empty_storage\<close> (lines 82-86): the new world and the new block's address.
  The request is for \<^verbatim>\<open>sizeof(dynamic_storage) + sizeof(T) * capacity\<close> bytes, computed
  in \<^verbatim>\<open>size_t\<close>; the block has room for as many \<open>T\<close> objects as fit behind the header,
  whatever \<open>capacity\<close> the header records. Constructing the header in a block that is
  too small for it is undefined (\<open>None\<close>).
\<close>

definition get_new_empty_storage :: "env \<Rightarrow> 'a world \<Rightarrow> nat \<Rightarrow> ('a world \<times> nat) option" where
  "get_new_empty_storage E w cap =
     (let bytes = size_t (sizeof_storage + sizeof_T E * cap) in
      if bytes < sizeof_storage then None
      else
        Some (w\<lparr>heap := (heap w)(next_addr w \<mapsto>
                  \<lparr>ds_capacity = cap, ds_references = 1,
                   ds_data = replicate ((bytes - sizeof_storage) div sizeof_T E) None\<rparr>),
                next_addr := Suc (next_addr w)\<rparr>,
              next_addr w))"

text \<open>
  \<^verbatim>\<open>get_copied_storage(from, size, capacity)\<close> (lines 88-99); \<open>src\<close> is the array \<open>from\<close>
  points to.
\<close>

definition get_copied_storage ::
  "env \<Rightarrow> 'a world \<Rightarrow> 'a option list \<Rightarrow> nat \<Rightarrow> nat \<Rightarrow> ('a world \<times> nat, 'a world) outcome" where
  "get_copied_storage E w src sz cap =
     (if cap < sz then Abort
      else
        (case get_new_empty_storage E w cap of
           None \<Rightarrow> Abort
         | Some (w1, a) \<Rightarrow>
             (case deref w1 (Some a) of
                None \<Rightarrow> Abort
              | Some d \<Rightarrow>
                  (case uninitialized_copy_n E w1 src sz (ds_data d) 0 of
                     Abort \<Rightarrow> Abort
                   | Threw (w2, _) \<Rightarrow> Threw (w2\<lparr>heap := (heap w2)(a := None)\<rparr>)
                   | Done (w2, dat) \<Rightarrow>
                       Done (w2\<lparr>heap := (heap w2)(a \<mapsto> d\<lparr>ds_data := dat\<rparr>)\<rparr>, a)))))"

text \<open>The read-only \<^verbatim>\<open>data() const\<close> (lines 202-207): the array it points to.\<close>

definition data_const :: "'a world \<Rightarrow> 'a socow_vector \<Rightarrow> 'a option list option" where
  "data_const w v =
     (if is_small v then Some (static_data v)
      else map_option ds_data (deref w (dynamic_data v)))"

text \<open>Writing an array back through the pointer \<^verbatim>\<open>data()\<close> returned.\<close>

definition store_data ::
  "'a world \<Rightarrow> 'a socow_vector \<Rightarrow> 'a option list \<Rightarrow> ('a world \<times> 'a socow_vector) option" where
  "store_data w v arr =
     (if is_small v then Some (w, v\<lparr>static_data := arr\<rparr>)
      else
        (case dynamic_data v of
           None \<Rightarrow> None
         | Some a \<Rightarrow>
             (case heap w a of
                None \<Rightarrow> None
              | Some d \<Rightarrow> Some (w\<lparr>heap := (heap w)(a \<mapsto> d\<lparr>ds_data := arr\<rparr>)\<rparr>, v))))"

definition capacity :: "env \<Rightarrow> 'a world \<Rightarrow> 'a socow_vector \<Rightarrow> nat option" where
  "capacity E w v =
     (if is_small v then Some (SMALL_SIZE E)
      else map_option ds_capacity (deref w (dynamic_data v)))"

definition copied :: "'a world \<Rightarrow> 'a socow_vector \<Rightarrow> bool option" where
  "copied w v =
     (if is_small v then Some False
      else map_option (\<lambda>d. 1 < ds_references d) (deref w (dynamic_data v)))"

text \<open>The const \<^verbatim>\<open>operator[]\<close> (lines 189-192).\<close>

definition index_const :: "'a world \<Rightarrow> 'a socow_vector \<Rightarrow> nat \<Rightarrow> 'a option" where
  "index_const w v i =
     (if i < sv_size v then
        (case data_const w v of
           None \<Rightarrow> None
         | Some arr \<Rightarrow> if i < length arr then arr ! i else None)
      else None)"

subsection \<open>Copy on write\<close>

definition copy_on_write :: "env \<Rightarrow> 'a world \<Rightarrow> 'a socow_vector \<Rightarrow> nat \<Rightarrow> 'a vres" where
  "copy_on_write E w v cap =
     (if cap < sv_size v then Abort
      else
        (case data_const w v of
           None \<Rightarrow> Abort
         | Some src \<Rightarrow>
             (case get_copied_storage E w src (sv_size v) cap of
                Abort \<Rightarrow> Abort
              | Threw w1 \<Rightarrow> Threw (w1, v)
              | Done (w1, a) \<Rightarrow>
                  (case dec_references w1 v of
                     Done (w2, v2) \<Rightarrow>
                       Done (w2, v2\<lparr>is_small := False, dynamic_data := Some a\<rparr>)
                   | _ \<Rightarrow> Abort))))"

definition check_cow :: "env \<Rightarrow> 'a world \<Rightarrow> 'a socow_vector \<Rightarrow> 'a vres" where
  "check_cow E w v =
     (case copied w v of
        None \<Rightarrow> Abort
      | Some True \<Rightarrow>
          (case capacity E w v of
             None \<Rightarrow> Abort
           | Some c \<Rightarrow> copy_on_write E w v c)
      | Some False \<Rightarrow> Done (w, v))"

text \<open>
  The mutable \<^verbatim>\<open>data()\<close> (lines 194-200). The pointer it returns is read and written
  with \<open>data_const\<close> and \<open>store_data\<close> on the handle it leaves.
\<close>

definition data_mut :: "env \<Rightarrow> 'a world \<Rightarrow> 'a socow_vector \<Rightarrow> 'a vres" where
  "data_mut E w v = (if is_small v then Done (w, v) else check_cow E w v)"

text \<open>The mutable \<^verbatim>\<open>operator[]\<close> (lines 184-187), up to the reference it returns.\<close>

definition index_mut :: "env \<Rightarrow> 'a world \<Rightarrow> 'a socow_vector \<Rightarrow> nat \<Rightarrow> 'a vres" where
  "index_mut E w v i = (if i < sv_size v then data_mut E w v else Abort)"

subsection \<open>Constructors and destructor\<close>

definition new_vector :: "env \<Rightarrow> 'a socow_vector" where
  "new_vector E =
     \<lparr>sv_size = 0, is_small = True,
      static_data = replicate (SMALL_SIZE E) None, dynamic_data = None\<rparr>"

text \<open>The private constructor \<^verbatim>\<open>socow_vector(other, size, capacity)\<close> (lines 126-130).\<close>

definition copy_with_capacity ::
  "env \<Rightarrow> 'a world \<Rightarrow> 'a socow_vector \<Rightarrow> nat \<Rightarrow> nat
     \<Rightarrow> ('a world \<times> 'a socow_vector, 'a world) outcome" where
  "copy_with_capacity E w other sz cap =
     (if \<not> SMALL_SIZE E < cap then Abort
      else if \<not> sz < cap then Abort
      else
        (case data_const w other of
           None \<Rightarrow> Abort
         | Some src \<Rightarrow>
             (case get_copied_storage E w src sz cap of
                Abort \<Rightarrow> Abort
              | Threw w1 \<Rightarrow> Threw w1
              | Done (w1, a) \<Rightarrow>
                  Done (w1, \<lparr>sv_size = sz, is_small = False,
                             static_data = replicate (SMALL_SIZE E) None,
                             dynamic_data = Some a\<rparr>))))"

text \<open>The destructor (lines 180-182); the handle is gone afterwards.\<close>

definition destructor :: "'a world \<Rightarrow> 'a socow_vector \<Rightarrow> ('a world, 'a world) outcome" where
  "destructor w v =
     (case dec_references w v of
        Done (w', _) \<Rightarrow> Done w'
      | _ \<Rightarrow> Abort)"

subsection \<open>Capacity changes\<close>

definition shrink_big_to_small :: "env \<Rightarrow> 'a world \<Rightarrow> 'a socow_vector \<Rightarrow> 'a vres" where
  "shrink_big_to_small E w v =
     (let p = dynamic_data v; v1 = v\<lparr>dynamic_data := None\<rparr> in
      case deref w p of
        None \<Rightarrow> Abort
      | Some d \<Rightarrow>
          (case uninitialized_copy_n E w (ds_data d) (sv_size v1) (static_data v1) 0 of
             Abort \<Rightarrow> Abort
           | Threw (w1, st) \<Rightarrow> Threw (w1, v1\<lparr>static_data := st, dynamic_data := p\<rparr>)
           | Done (w1, st) \<Rightarrow>
               (case dec_references_at w1 p (sv_size v1) of
                  Done w2 \<Rightarrow> Done (w2, v1\<lparr>static_data := st, is_small := True\<rparr>)
                | _ \<Rightarrow> Abort)))"

definition reserve :: "env \<Rightarrow> 'a world \<Rightarrow> 'a socow_vector \<Rightarrow> nat \<Rightarrow> 'a vres" where
  "reserve E w v new_capacity =
     (if sv_size v > new_capacity then Done (w, v)
      else if is_small v \<and> new_capacity \<le> SMALL_SIZE E then Done (w, v)
      else if is_small v then copy_on_write E w v new_capacity
      else
        (case deref w (dynamic_data v) of
           None \<Rightarrow> Abort
         | Some d \<Rightarrow>
             if ds_references d > 1 \<and> new_capacity \<le> SMALL_SIZE E then
               shrink_big_to_small E w v
             else if ds_references d > 1
                     \<or> (ds_references d = 1 \<and> new_capacity > ds_capacity d) then
               copy_on_write E w v new_capacity
             else Done (w, v)))"

definition shrink_to_fit :: "env \<Rightarrow> 'a world \<Rightarrow> 'a socow_vector \<Rightarrow> 'a vres" where
  "shrink_to_fit E w v =
     (case capacity E w v of
        None \<Rightarrow> Abort
      | Some c \<Rightarrow>
          if sv_size v = c \<or> is_small v then Done (w, v)
          else if sv_size v \<le> SMALL_SIZE E then shrink_big_to_small E w v
          else copy_on_write E w v (sv_size v))"

subsection \<open>Swap\<close>

text \<open>
  The argument \<^verbatim>\<open>other\<close> of \<^verbatim>\<open>operator=\<close> and of \<^verbatim>\<open>swap\<close> is a reference: it denotes the
  object the member is called on, or another object.
\<close>

datatype 'a operand = This | Other "'a socow_vector"

text \<open>
  \<open>swap_vec\<close> is \<^verbatim>\<open>swap\<close> (lines 321-357) from line 325 on, for two distinct objects \<open>a\<close>
  (\<^verbatim>\<open>*this\<close>) and \<open>b\<close> (\<^verbatim>\<open>other\<close>), as \<^verbatim>\<open>pop_back\<close> and \<^verbatim>\<open>erase\<close> call it on a local
  temporary; \<open>swap\<close> below adds the test \<^verbatim>\<open>this == &other\<close> of lines 322-324.
  In the branch for two inline vectors every \<^verbatim>\<open>data()\<close> and \<^verbatim>\<open>begin()\<close> is the inline
  array. The handler there catches \<^verbatim>\<open>std::exception\<close>, which the exceptions of \<open>T\<close> are
  taken to derive from.
\<close>

function swap_vec ::
  "env \<Rightarrow> 'a world \<Rightarrow> 'a socow_vector \<Rightarrow> 'a socow_vector
     \<Rightarrow> ('a world \<times> 'a socow_vector \<times> 'a socow_vector,
         'a world \<times> 'a socow_vector \<times> 'a socow_vector) outcome" where
  "swap_vec E w a b =
     (if (\<not> is_small a \<and> is_small b) \<or> (is_small a \<and> is_small b \<and> sv_size b < sv_size a) then
        (case swap_vec E w b a of
           Done (w', b', a') \<Rightarrow> Done (w', a', b')
         | Threw (w', b', a') \<Rightarrow> Threw (w', a', b')
         | Abort \<Rightarrow> Abort)
      else if is_small a \<and> is_small b then
        (let common_len = sv_size a; diff = sv_size b - sv_size a in
         case uninitialized_copy_n E w (drop common_len (static_data b)) diff
                (static_data a) common_len of
           Abort \<Rightarrow> Abort
         | Threw (w1, sa) \<Rightarrow> Threw (w1, a\<lparr>static_data := sa\<rparr>, b)
         | Done (w1, sa) \<Rightarrow>
             (case swap_ranges E w1 sa (static_data b) common_len of
                Abort \<Rightarrow> Abort
              | Threw (w2, sa', sb') \<Rightarrow>
                  Threw (w2, a\<lparr>static_data := destroy_n sa' common_len diff\<rparr>,
                         b\<lparr>static_data := sb'\<rparr>)
              | Done (w2, sa', sb') \<Rightarrow>
                  Done (w2,
                    a\<lparr>static_data := sa', sv_size := sv_size b, is_small := is_small b\<rparr>,
                    b\<lparr>static_data := destroy_n sb' common_len diff,
                      sv_size := sv_size a, is_small := is_small a\<rparr>)))
      else if \<not> is_small a \<and> \<not> is_small b then
        Done (w,
          a\<lparr>dynamic_data := dynamic_data b, sv_size := sv_size b, is_small := is_small b\<rparr>,
          b\<lparr>dynamic_data := dynamic_data a, sv_size := sv_size a, is_small := is_small a\<rparr>)
      else
        (let tmp = dynamic_data b; b1 = b\<lparr>dynamic_data := None\<rparr> in
         case uninitialized_copy_n E w (static_data a) (sv_size a) (static_data b1) 0 of
           Abort \<Rightarrow> Abort
         | Threw (w1, sb) \<Rightarrow> Threw (w1, a, b1\<lparr>static_data := sb, dynamic_data := tmp\<rparr>)
         | Done (w1, sb) \<Rightarrow>
             Done (w1,
               a\<lparr>static_data := destroy_n (static_data a) 0 (sv_size a), dynamic_data := tmp,
                 sv_size := sv_size b, is_small := is_small b\<rparr>,
               b1\<lparr>static_data := sb, sv_size := sv_size a, is_small := is_small a\<rparr>)))"
  by pat_completeness auto
termination
  by (relation "measure (\<lambda>(E, w, a, b).
        if (\<not> is_small a \<and> is_small b) \<or> (is_small a \<and> is_small b \<and> sv_size b < sv_size a)
        then 1 else 0)") auto

text \<open>\<^verbatim>\<open>swap\<close> as a caller sees it; swapping an object with itself returns at once.\<close>

definition swap ::
  "env \<Rightarrow> 'a world \<Rightarrow> 'a socow_vector \<Rightarrow> 'a operand
     \<Rightarrow> ('a world \<times> 'a socow_vector \<times> 'a operand,
         'a world \<times> 'a socow_vector \<times> 'a operand) outcome" where
  "swap E w a r =
     (case r of
        This \<Rightarrow> Done (w, a, This)
      | Other b \<Rightarrow>
          (case swap_vec E w a b of
             Done (w', a', b') \<Rightarrow> Done (w', a', Other b')
           | Threw (w', a', b') \<Rightarrow> Threw (w', a', Other b')
           | Abort \<Rightarrow> Abort))"

subsection \<open>Removing at the end\<close>

text \<open>
  A temporary's scope ends while an exception unwinds: its destructor runs and the
  caller sees \<open>v\<close>.
\<close>

definition unwind :: "'a world \<Rightarrow> 'a socow_vector \<Rightarrow> 'a socow_vector \<Rightarrow> 'a vres" where
  "unwind w tmp v =
     (case destructor w tmp of
        Done w' \<Rightarrow> Threw (w', v)
      | _ \<Rightarrow> Abort)"

text \<open>The same at the normal end of the scope.\<close>

definition leave_scope :: "'a world \<Rightarrow> 'a socow_vector \<Rightarrow> 'a socow_vector \<Rightarrow> 'a vres" where
  "leave_scope w tmp v =
     (case destructor w tmp of
        Done w' \<Rightarrow> Done (w', v)
      | _ \<Rightarrow> Abort)"

definition pop_back :: "env \<Rightarrow> 'a world \<Rightarrow> 'a socow_vector \<Rightarrow> 'a vres" where
  "pop_back E w v =
     (if \<not> sv_size v > 0 then Abort
      else
        (case copied w v of
           None \<Rightarrow> Abort
         | Some True \<Rightarrow>
             (case capacity E w v of
                None \<Rightarrow> Abort
              | Some c \<Rightarrow>
                  (case copy_with_capacity E w v (sv_size v - 1) c of
                     Abort \<Rightarrow> Abort
                   | Threw w1 \<Rightarrow> Threw (w1, v)
                   | Done (w1, nv) \<Rightarrow>
                       (case swap_vec E w1 v nv of
                          Abort \<Rightarrow> Abort
                        | Threw (w2, v2, nv2) \<Rightarrow> unwind w2 nv2 v2
                        | Done (w2, v2, nv2) \<Rightarrow> leave_scope w2 nv2 v2)))
         | Some False \<Rightarrow>
             (case data_mut E w v of
                Abort \<Rightarrow> Abort
              | Threw s \<Rightarrow> Threw s
              | Done (w1, v1) \<Rightarrow>
                  (case data_const w1 v1 of
                     None \<Rightarrow> Abort
                   | Some arr \<Rightarrow>
                       if sv_size v1 - 1 < length arr \<and> arr ! (sv_size v1 - 1) \<noteq> None then
                         (case store_data w1 v1 (arr[sv_size v1 - 1 := None]) of
                            None \<Rightarrow> Abort
                          | Some (w2, v2) \<Rightarrow> Done (w2, v2\<lparr>sv_size := sv_size v2 - 1\<rparr>))
                       else Abort))))"

text \<open>\<open>n\<close> calls of \<^verbatim>\<open>pop_back()\<close> in a row (the loops of \<^verbatim>\<open>clear\<close> and \<^verbatim>\<open>erase\<close>).\<close>

fun pop_back_n :: "env \<Rightarrow> 'a world \<Rightarrow> 'a socow_vector \<Rightarrow> nat \<Rightarrow> 'a vres" where
  "pop_back_n E w v 0 = Done (w, v)"
| "pop_back_n E w v (Suc n) =
     (case pop_back E w v of
        Abort \<Rightarrow> Abort
      | Threw s \<Rightarrow> Threw s
      | Done (w', v') \<Rightarrow> pop_back_n E w' v' n)"

definition clear :: "env \<Rightarrow> 'a world \<Rightarrow> 'a socow_vector \<Rightarrow> 'a vres" where
  "clear E w v =
     (if is_small v then pop_back_n E w v (sv_size v)
      else
        (case deref w (dynamic_data v) of
           None \<Rightarrow> Abort
         | Some d \<Rightarrow>
             if ds_references d = 1 then pop_back_n E w v (sv_size v)
             else
               (case dec_references w v of
                  Done (w', v') \<Rightarrow> Done (w', v'\<lparr>is_small := True, sv_size := 0\<rparr>)
                | _ \<Rightarrow> Abort)))"

subsection \<open>Appending and copy assignment\<close>

text \<open>
  \<^verbatim>\<open>push_back\<close> (lines 233-243) assigns a temporary to \<^verbatim>\<open>*this\<close>, and \<^verbatim>\<open>operator=\<close> (lines
  139-178) fills a temporary with \<^verbatim>\<open>push_back\<close>: the two are defined together, with the
  loop \<^verbatim>\<open>for (i = lo; i < hi; ++i) tmp.push_back(other[i])\<close> (\<open>push_back_range\<close>), which
  \<^verbatim>\<open>insert\<close> and \<^verbatim>\<open>erase\<close> use as well.

  \<open>assign E w v other\<close> is \<^verbatim>\<open>operator=\<close> from line 144 on, for two distinct objects, as
  \<^verbatim>\<open>push_back\<close>, \<^verbatim>\<open>insert\<close> and the copy constructor call it (on a local temporary, or
  on the object under construction); \<open>operator_assign\<close> below adds the test
  \<^verbatim>\<open>this == &other\<close> of lines 140-142.
  The argument \<^verbatim>\<open>value\<close> of \<^verbatim>\<open>push_back\<close> is a reference in the source and a value here:
  the source reads it before it releases or overwrites any storage.
\<close>

function (domintros)
  push_back :: "env \<Rightarrow> 'a world \<Rightarrow> 'a socow_vector \<Rightarrow> 'a \<Rightarrow> 'a vres" and
  assign :: "env \<Rightarrow> 'a world \<Rightarrow> 'a socow_vector \<Rightarrow> 'a socow_vector \<Rightarrow> 'a vres" and
  push_back_range ::
    "env \<Rightarrow> 'a world \<Rightarrow> 'a socow_vector \<Rightarrow> 'a socow_vector \<Rightarrow> nat \<Rightarrow> nat \<Rightarrow> 'a vres"
where
  "push_back E w v x =
     (case capacity E w v of
        None \<Rightarrow> Abort
      | Some c \<Rightarrow>
          (case copied w v of
             None \<Rightarrow> Abort
           | Some cp \<Rightarrow>
               if sv_size v = c \<or> cp then
                 (case copy_with_capacity E w v (sv_size v) (size_t (c * 2)) of
                    Abort \<Rightarrow> Abort
                  | Threw w1 \<Rightarrow> Threw (w1, v)
                  | Done (w1, nv) \<Rightarrow>
                      (case push_back E w1 nv x of
                         Abort \<Rightarrow> Abort
                       | Threw (w2, nv2) \<Rightarrow> unwind w2 nv2 v
                       | Done (w2, nv2) \<Rightarrow>
                           (case assign E w2 v nv2 of
                              Abort \<Rightarrow> Abort
                            | Threw (w3, v3) \<Rightarrow> unwind w3 nv2 v3
                            | Done (w3, v3) \<Rightarrow> leave_scope w3 nv2 v3)))
               else
                 (case data_mut E w v of
                    Abort \<Rightarrow> Abort
                  | Threw s \<Rightarrow> Threw s
                  | Done (w1, v1) \<Rightarrow>
                      (case copy_construct E w1 x of
                         (w2, None) \<Rightarrow> Threw (w2, v1)
                       | (w2, Some y) \<Rightarrow>
                           (case data_const w2 v1 of
                              None \<Rightarrow> Abort
                            | Some arr \<Rightarrow>
                                if sv_size v1 < length arr then
                                  (case store_data w2 v1 (arr[sv_size v1 := Some y]) of
                                     None \<Rightarrow> Abort
                                   | Some (w3, v3) \<Rightarrow>
                                       Done (w3, v3\<lparr>sv_size := Suc (sv_size v3)\<rparr>))
                                else Abort)))))"
| "assign E w v other =
     (if is_small v \<and> is_small other then
        (let common_len = min (sv_size v) (sv_size other) in
         case reserve E w (new_vector E) common_len of
           Abort \<Rightarrow> Abort
         | Threw (w1, tmp1) \<Rightarrow> unwind w1 tmp1 v
         | Done (w1, tmp1) \<Rightarrow>
             (case push_back_range E w1 tmp1 other 0 common_len of
                Abort \<Rightarrow> Abort
              | Threw (w2, tmp2) \<Rightarrow> unwind w2 tmp2 v
              | Done (w2, tmp2) \<Rightarrow>
                  (case (if sv_size v < sv_size other then
                           (case uninitialized_copy_n E w2 (drop (sv_size v) (static_data other))
                                   (sv_size other - sv_size v) (static_data v) (sv_size v) of
                              Abort \<Rightarrow> Abort
                            | Threw (w3, sa) \<Rightarrow> Threw (w3, v\<lparr>static_data := sa\<rparr>)
                            | Done (w3, sa) \<Rightarrow> Done (w3, v\<lparr>static_data := sa\<rparr>))
                         else if sv_size other < sv_size v then
                           Done (w2, v\<lparr>static_data := destroy_n (static_data v) (sv_size other)
                                          (sv_size v - sv_size other)\<rparr>)
                         else Done (w2, v)) of
                     Abort \<Rightarrow> Abort
                   | Threw (w3, v3) \<Rightarrow> unwind w3 tmp2 v3
                   | Done (w3, v3) \<Rightarrow>
                       (let v4 = v3\<lparr>sv_size := sv_size other\<rparr> in
                        case data_mut E w3 tmp2 of
                          Abort \<Rightarrow> Abort
                        | Threw (w4, tmp4) \<Rightarrow> unwind w4 tmp4 v4
                        | Done (w4, tmp4) \<Rightarrow>
                            (case data_const w4 tmp4 of
                               None \<Rightarrow> Abort
                             | Some ta \<Rightarrow>
                                 (case swap_ranges E w4 ta (static_data v4) (sv_size tmp4) of
                                    Abort \<Rightarrow> Abort
                                  | Threw (w5, ta', sa') \<Rightarrow>
                                      (case store_data w5 tmp4 ta' of
                                         None \<Rightarrow> Abort
                                       | Some (w6, tmp6) \<Rightarrow>
                                           unwind w6 tmp6 (v4\<lparr>static_data := sa'\<rparr>))
                                  | Done (w5, ta', sa') \<Rightarrow>
                                      (case store_data w5 tmp4 ta' of
                                         None \<Rightarrow> Abort
                                       | Some (w6, tmp6) \<Rightarrow>
                                           (case destructor w6 tmp6 of
                                              Done w7 \<Rightarrow>
                                                Done (w7, v4\<lparr>static_data := sa',
                                                  is_small := is_small other,
                                                  sv_size := sv_size other\<rparr>)
                                            | _ \<Rightarrow> Abort))))))))
      else if \<not> is_small v \<and> is_small other then
        (let p = dynamic_data v; v1 = v\<lparr>dynamic_data := None\<rparr> in
         case uninitialized_copy_n E w (static_data other) (sv_size other) (static_data v1) 0 of
           Abort \<Rightarrow> Abort
         | Threw (w1, sa) \<Rightarrow> Threw (w1, v1\<lparr>static_data := sa, dynamic_data := p\<rparr>)
         | Done (w1, sa) \<Rightarrow>
             (case dec_references_at w1 p (sv_size v1) of
                Done w2 \<Rightarrow>
                  Done (w2, v1\<lparr>static_data := sa, is_small := is_small other,
                                sv_size := sv_size other\<rparr>)
              | _ \<Rightarrow> Abort))
      else
        (case dec_references w v of
           Done (w1, v1) \<Rightarrow>
             (let v2 = v1\<lparr>dynamic_data := dynamic_data other\<rparr> in
              case dynamic_data v2 of
                None \<Rightarrow> Abort
              | Some a \<Rightarrow>
                  (case heap w1 a of
                     None \<Rightarrow> Abort
                   | Some d \<Rightarrow>
                       Done (w1\<lparr>heap := (heap w1)(a \<mapsto>
                                  d\<lparr>ds_references := Suc (ds_references d)\<rparr>)\<rparr>,
                             v2\<lparr>is_small := is_small other, sv_size := sv_size other\<rparr>)))
         | _ \<Rightarrow> Abort))"
| "push_back_range E w tmp other i n =
     (if i < n then
        (case index_const w other i of
           None \<Rightarrow> Abort
         | Some x \<Rightarrow>
             (case push_back E w tmp x of
                Abort \<Rightarrow> Abort
              | Threw s \<Rightarrow> Threw s
              | Done (w', tmp') \<Rightarrow> push_back_range E w' tmp' other (Suc i) n))
      else Done (w, tmp))"
  by pat_completeness auto

lemma get_copied_storage_Done:
  "get_copied_storage E w src sz cap = Done (w1, a) \<Longrightarrow>
     \<exists>dat. heap w1 a = Some \<lparr>ds_capacity = cap, ds_references = 1, ds_data = dat\<rparr>"
  by (auto simp: get_copied_storage_def get_new_empty_storage_def deref_def Let_def
           split: if_splits outcome.splits prod.splits option.splits)

lemma copy_with_capacity_Done:
  assumes "copy_with_capacity E w v sz cap = Done (w1, nv)"
  shows "capacity E w1 nv = Some cap" and "copied w1 nv = Some False"
    and "sv_size nv = sz" and "sz < cap" and "\<not> is_small nv"
  using assms
  by (auto simp: copy_with_capacity_def capacity_def copied_def deref_def
           split: if_splits outcome.splits option.splits dest!: get_copied_storage_Done)

lemma push_back_in_place_heap:
  assumes dom: "push_back_assign_push_back_range_dom (Inl (E, w, v, x))"
    and cap: "capacity E w v = Some c" and cp: "copied w v = Some False"
    and lt: "sv_size v \<noteq> c" and ns: "\<not> is_small v"
    and res: "push_back E w v x = Done (w', v')"
  shows "\<not> is_small v'"
  using res cap cp lt ns
  by (auto simp: push_back.psimps[OF dom] data_mut_def check_cow_def store_data_def
           split: outcome.splits prod.splits option.splits if_splits)

termination push_back
proof (relation "inv_image (less_than <*lex*> less_than)
     (\<lambda>args. case args of
        Inl (E, w, v, x) \<Rightarrow>
          (case capacity E w v of None \<Rightarrow> (0::nat, 0::nat)
           | Some c \<Rightarrow> (case copied w v of None \<Rightarrow> (0, 0)
              | Some cp \<Rightarrow> if sv_size v = c \<or> cp then (2, 0) else (0, 0)))
      | Inr (Inl (E, w, v, other)) \<Rightarrow> if is_small v \<and> is_small other then (4, 0) else (1, 0)
      | Inr (Inr (E, w, tmp, other, i, n)) \<Rightarrow> (3, n - i))", goal_cases)
  case 1
  show ?case by (intro wf_inv_image wf_lex_prod wf_less_than)
next
  case (2 E w v x c cp y w1 nv)
  from 2 have cw: "copy_with_capacity E w v (sv_size v) (size_t (c * 2)) = Done (w1, nv)"
    by simp
  note f = copy_with_capacity_Done[OF cw]
  from f(4) have "sv_size v \<noteq> size_t (c * 2)" by simp
  with 2 show ?case by (simp add: f)
next
  case (3 E w v x c cp y w1 nv y2 w2 nv2)
  from 3 have cw: "copy_with_capacity E w v (sv_size v) (size_t (c * 2)) = Done (w1, nv)"
    by simp
  note f = copy_with_capacity_Done[OF cw]
  from 3 have pb: "push_back E w1 nv x = Done (w2, nv2)" by simp
  from 3 have dom: "push_back_assign_push_back_range_dom (Inl (E, w1, nv, x))" by simp
  have "\<not> is_small nv2"
    using push_back_in_place_heap[OF dom f(1) f(2) _ f(5) pb] f(3) f(4) by simp
  with 3 show ?case by simp
next
  case 4
  then show ?case by (auto split: option.splits)
next
  case 5
  then show ?case by (auto split: option.splits)
next
  case 6
  then show ?case by auto
qed

declare push_back.simps [simp del] assign.simps [simp del] push_back_range.simps [simp del]
declare swap_vec.simps [simp del]

text \<open>\<^verbatim>\<open>operator=\<close> as a caller sees it; assigning an object to itself returns at once.\<close>

definition operator_assign ::
  "env \<Rightarrow> 'a world \<Rightarrow> 'a socow_vector \<Rightarrow> 'a operand \<Rightarrow> 'a vres" where
  "operator_assign E w v r =
     (case r of
        This \<Rightarrow> Done (w, v)
      | Other other \<Rightarrow> assign E w v other)"

text \<open>
  The copy constructor (lines 135-137). When the assignment throws, no object has been
  constructed.
\<close>

definition copy_constructor ::
  "env \<Rightarrow> 'a world \<Rightarrow> 'a socow_vector \<Rightarrow> ('a world \<times> 'a socow_vector, 'a world) outcome" where
  "copy_constructor E w other =
     (case assign E w \<lparr>sv_size = 0, is_small = True,
                       static_data = replicate (SMALL_SIZE E) None, dynamic_data = None\<rparr> other of
        Abort \<Rightarrow> Abort
      | Threw (w', _) \<Rightarrow> Threw w'
      | Done s \<Rightarrow> Done s)"

subsection \<open>Insert and erase\<close>

text \<open>\<^verbatim>\<open>std::swap((*this)[i], (*this)[j])\<close>.\<close>

definition swap_elems :: "env \<Rightarrow> 'a world \<Rightarrow> 'a socow_vector \<Rightarrow> nat \<Rightarrow> nat \<Rightarrow> 'a vres" where
  "swap_elems E w v i j =
     (case index_mut E w v i of
        Abort \<Rightarrow> Abort
      | Threw s \<Rightarrow> Threw s
      | Done (w1, v1) \<Rightarrow>
          (case index_mut E w1 v1 j of
             Abort \<Rightarrow> Abort
           | Threw s \<Rightarrow> Threw s
           | Done (w2, v2) \<Rightarrow>
               (case data_const w2 v2 of
                  None \<Rightarrow> Abort
                | Some arr \<Rightarrow>
                    if i < length arr \<and> j < length arr then
                      (case (arr ! i, arr ! j) of
                         (Some x, Some y) \<Rightarrow>
                           (case swap_T E w2 x y of
                              (w3, None) \<Rightarrow> Threw (w3, v2)
                            | (w3, Some (x', y')) \<Rightarrow>
                                (case store_data w3 v2 (arr[i := Some x', j := Some y']) of
                                   None \<Rightarrow> Abort
                                 | Some s \<Rightarrow> Done s))
                       | _ \<Rightarrow> Abort)
                    else Abort)))"

text \<open>The loop of lines 390-392, entered with \<open>i = size() - 1\<close>.\<close>

fun insert_shift :: "env \<Rightarrow> 'a world \<Rightarrow> 'a socow_vector \<Rightarrow> nat \<Rightarrow> nat \<Rightarrow> 'a vres" where
  "insert_shift E w v diff 0 = Done (w, v)"
| "insert_shift E w v diff (Suc j) =
     (if Suc j > diff then
        (case swap_elems E w v (Suc j) j of
           Abort \<Rightarrow> Abort
         | Threw s \<Rightarrow> Threw s
         | Done (w', v') \<Rightarrow> insert_shift E w' v' diff j)
      else Done (w, v))"

text \<open>
  \<^verbatim>\<open>insert(pos, value)\<close> (lines 375-395) with \<open>diff = pos - data()\<close>; a \<open>pos\<close> before the
  array is not modelled.
\<close>

definition insert_vec :: "env \<Rightarrow> 'a world \<Rightarrow> 'a socow_vector \<Rightarrow> nat \<Rightarrow> 'a \<Rightarrow> 'a vres" where
  "insert_vec E w v diff x =
     (case capacity E w v of
        None \<Rightarrow> Abort
      | Some c \<Rightarrow>
          (case copied w v of
             None \<Rightarrow> Abort
           | Some cp \<Rightarrow>
               (case (if sv_size v = c \<or> cp then
                        (case reserve E w (new_vector E)
                                (if cp then size_t (c + 1) else size_t (2 * c)) of
                           Abort \<Rightarrow> Abort
                         | Threw (w1, nv1) \<Rightarrow> unwind w1 nv1 v
                         | Done (w1, nv1) \<Rightarrow>
                             (case push_back_range E w1 nv1 v 0 diff of
                                Abort \<Rightarrow> Abort
                              | Threw (w2, nv2) \<Rightarrow> unwind w2 nv2 v
                              | Done (w2, nv2) \<Rightarrow>
                                  (case push_back E w2 nv2 x of
                                     Abort \<Rightarrow> Abort
                                   | Threw (w3, nv3) \<Rightarrow> unwind w3 nv3 v
                                   | Done (w3, nv3) \<Rightarrow>
                                       (case push_back_range E w3 nv3 v diff (sv_size v) of
                                          Abort \<Rightarrow> Abort
                                        | Threw (w4, nv4) \<Rightarrow> unwind w4 nv4 v
                                        | Done (w4, nv4) \<Rightarrow>
                                            (case assign E w4 v nv4 of
                                               Abort \<Rightarrow> Abort
                                             | Threw (w5, v5) \<Rightarrow> unwind w5 nv4 v5
                                             | Done (w5, v5) \<Rightarrow> leave_scope w5 nv4 v5)))))
                      else
                        (case push_back E w v x of
                           Abort \<Rightarrow> Abort
                         | Threw s \<Rightarrow> Threw s
                         | Done (w1, v1) \<Rightarrow> insert_shift E w1 v1 diff (sv_size v1 - 1))) of
                  Abort \<Rightarrow> Abort
                | Threw s \<Rightarrow> Threw s
                | Done (w', v') \<Rightarrow> data_mut E w' v')))"

lemma swap_elems_size:
  "swap_elems E w v i j = Done (w', v') \<Longrightarrow> sv_size v' = sv_size v"
  by (auto simp: swap_elems_def index_mut_def data_mut_def check_cow_def copy_on_write_def
                 dec_references_def store_data_def
           split: if_splits outcome.splits option.splits prod.splits bool.splits)

text \<open>The loop of lines 420-422, entered with \<open>i = start\<close>.\<close>

function erase_shift :: "env \<Rightarrow> 'a world \<Rightarrow> 'a socow_vector \<Rightarrow> nat \<Rightarrow> nat \<Rightarrow> 'a vres" where
  "erase_shift E w v rng i =
     (if i < size_t_minus (sv_size v) rng then
        (case swap_elems E w v i (i + rng) of
           Abort \<Rightarrow> Abort
         | Threw s \<Rightarrow> Threw s
         | Done (w', v') \<Rightarrow> erase_shift E w' v' rng (Suc i))
      else Done (w, v))"
  by pat_completeness auto
termination
  by (relation "measure (\<lambda>(E, w, v, rng, i). size_t_minus (sv_size v) rng - i)")
     (auto dest: swap_elems_size)

declare erase_shift.simps [simp del]

text \<open>
  \<^verbatim>\<open>erase(first, last)\<close> (lines 401-427) with \<open>start = first - data()\<close> and
  \<open>rng = last - first\<close> (\<^verbatim>\<open>range\<close> in the source), both taken not to be negative. In the
  shared branch the returned \<^verbatim>\<open>data() + start\<close> is evaluated before the temporary goes
  out of scope.
\<close>

definition erase :: "env \<Rightarrow> 'a world \<Rightarrow> 'a socow_vector \<Rightarrow> nat \<Rightarrow> nat \<Rightarrow> 'a vres" where
  "erase E w v start rng =
     (if rng = 0 then data_mut E w v
      else
        (case copied w v of
           None \<Rightarrow> Abort
         | Some True \<Rightarrow>
             (case capacity E w v of
                None \<Rightarrow> Abort
              | Some c \<Rightarrow>
                  (case reserve E w (new_vector E) (size_t_minus c rng) of
                     Abort \<Rightarrow> Abort
                   | Threw (w1, nv1) \<Rightarrow> unwind w1 nv1 v
                   | Done (w1, nv1) \<Rightarrow>
                       (case push_back_range E w1 nv1 v 0 start of
                          Abort \<Rightarrow> Abort
                        | Threw (w2, nv2) \<Rightarrow> unwind w2 nv2 v
                        | Done (w2, nv2) \<Rightarrow>
                            (case push_back_range E w2 nv2 v (start + rng) (sv_size v) of
                               Abort \<Rightarrow> Abort
                             | Threw (w3, nv3) \<Rightarrow> unwind w3 nv3 v
                             | Done (w3, nv3) \<Rightarrow>
                                 (case swap_vec E w3 v nv3 of
                                    Abort \<Rightarrow> Abort
                                  | Threw (w4, v4, nv4) \<Rightarrow> unwind w4 nv4 v4
                                  | Done (w4, v4, nv4) \<Rightarrow>
                                      (case data_mut E w4 v4 of
                                         Abort \<Rightarrow> Abort
                                       | Threw (w5, v5) \<Rightarrow> unwind w5 nv4 v5
                                       | Done (w5, v5) \<Rightarrow> leave_scope w5 nv4 v5))))))
         | Some False \<Rightarrow>
             (case erase_shift E w v rng start of
                Abort \<Rightarrow> Abort
              | Threw s \<Rightarrow> Threw s
              | Done (w1, v1) \<Rightarrow>
                  (case pop_back_n E w1 v1 rng of
                     Abort \<Rightarrow> Abort
                   | Threw s \<Rightarrow> Threw s
                   | Done (w2, v2) \<Rightarrow> data_mut E w2 v2))))"

text \<open>\<^verbatim>\<open>erase(pos)\<close> (lines 397-399).\<close>

definition erase_one :: "env \<Rightarrow> 'a world \<Rightarrow> 'a socow_vector \<Rightarrow> nat \<Rightarrow> 'a vres" where
  "erase_one E w v pos = erase E w v pos 1"

text \<open>
  A caller's \<^verbatim>\<open>v[i] = x\<close>: the mutable \<^verbatim>\<open>operator[]\<close>, then the copy assignment of \<open>T\<close>
  (taken not to throw) on the object the reference denotes.
\<close>

definition write_at :: "env \<Rightarrow> 'a world \<Rightarrow> 'a socow_vector \<Rightarrow> nat \<Rightarrow> 'a \<Rightarrow> 'a vres" where
  "write_at E w v i x =
     (case index_mut E w v i of
        Abort \<Rightarrow> Abort
      | Threw s \<Rightarrow> Threw s
      | Done (w1, v1) \<Rightarrow>
          (case data_const w1 v1 of
             None \<Rightarrow> Abort
           | Some arr \<Rightarrow>
               if i < length arr \<and> arr ! i \<noteq> None then
                 (case store_data w1 v1 (arr[i := Some x]) of
                    None \<Rightarrow> Abort
                  | Some s \<Rightarrow> Done s)
               else Abort))"

subsection \<open>Programs\<close>

text \<open>
  The mutable \<^verbatim>\<open>front()\<close> and \<^verbatim>\<open>back()\<close> (lines 213-216 and 223-226), up to the reference
  they return.
\<close>

definition front_mut :: "env \<Rightarrow> 'a world \<Rightarrow> 'a socow_vector \<Rightarrow> 'a vres" where
  "front_mut E w v = (if sv_size v > 0 then index_mut E w v 0 else Abort)"

definition back_mut :: "env \<Rightarrow> 'a world \<Rightarrow> 'a socow_vector \<Rightarrow> 'a vres" where
  "back_mut E w v = (if sv_size v > 0 then index_mut E w v (sv_size v - 1) else Abort)"

text \<open>
  The public members that can change the store, with their arguments; the object they
  are called on is given separately. \<open>Construct_copy\<close> is the copy constructor, called
  with the object to copy; \<open>Destroy\<close> the destructor; \<open>Subscript\<close>, \<open>Data\<close>, \<open>Front\<close> and
  \<open>Back\<close> the mutable accessors (\<^verbatim>\<open>begin()\<close> and \<^verbatim>\<open>end()\<close> are \<^verbatim>\<open>data()\<close>); \<open>Write\<close> an
  assignment through the reference \<^verbatim>\<open>operator[]\<close> returns. The default constructor
  and the const members leave the store as it is.
\<close>

datatype 'a call =
    Construct_copy
  | Assign "'a operand"
  | Destroy
  | Subscript nat
  | Data
  | Front
  | Back
  | Write nat 'a
  | Push_back 'a
  | Pop_back
  | Reserve nat
  | Shrink_to_fit
  | Clear
  | Swap "'a operand"
  | Insert nat 'a
  | Erase_at nat
  | Erase nat nat

text \<open>The store a call leaves, when it returns or throws; \<open>None\<close> when it stops the program.\<close>

definition world_after :: "('a world \<times> 'b, 'a world \<times> 'c) outcome \<Rightarrow> 'a world option" where
  "world_after r =
     (case r of Done (w', _) \<Rightarrow> Some w' | Threw (w', _) \<Rightarrow> Some w' | Abort \<Rightarrow> None)"

fun call_world :: "env \<Rightarrow> 'a world \<Rightarrow> 'a socow_vector \<Rightarrow> 'a call \<Rightarrow> 'a world option" where
  "call_world E w v Construct_copy =
     (case copy_constructor E w v of Done (w', _) \<Rightarrow> Some w' | Threw w' \<Rightarrow> Some w' | Abort \<Rightarrow> None)"
| "call_world E w v (Assign r) = world_after (operator_assign E w v r)"
| "call_world E w v Destroy =
     (case destructor w v of Done w' \<Rightarrow> Some w' | _ \<Rightarrow> None)"
| "call_world E w v (Subscript i) = world_after (index_mut E w v i)"
| "call_world E w v Data = world_after (data_mut E w v)"
| "call_world E w v Front = world_after (front_mut E w v)"
| "call_world E w v Back = world_after (back_mut E w v)"
| "call_world E w v (Write i x) = world_after (write_at E w v i x)"
| "call_world E w v (Push_back x) = world_after (push_back E w v x)"
| "call_world E w v Pop_back = world_after (pop_back E w v)"
| "call_world E w v (Reserve k) = world_after (reserve E w v k)"
| "call_world E w v Shrink_to_fit = world_after (shrink_to_fit E w v)"
| "call_world E w v Clear = world_after (clear E w v)"
| "call_world E w v (Swap r) = world_after (swap E w v r)"
| "call_world E w v (Insert diff x) = world_after (insert_vec E w v diff x)"
| "call_world E w v (Erase_at pos) = world_after (erase_one E w v pos)"
| "call_world E w v (Erase start rng) = world_after (erase E w v start rng)"

text \<open>
  A program's calls in order, each on some object: \<open>run\<close> gives the store after the last
  one. The handles are arbitrary, so \<open>run\<close> covers at least every sequence of calls a
  program can make on the objects it holds.
\<close>

fun run :: "env \<Rightarrow> 'a world \<Rightarrow> ('a socow_vector \<times> 'a call) list \<Rightarrow> 'a world option" where
  "run E w [] = Some w"
| "run E w ((v, c) # cs) =
     (case call_world E w v c of None \<Rightarrow> None | Some w' \<Rightarrow> run E w' cs)"

definition empty_world :: "'a world" where
  "empty_world = \<lparr>heap = Map.empty, next_addr = 0, copies = 0\<rparr>"

section \<open>Allocation requests that do not wrap\<close>

text \<open>
  \<open>fits E cap\<close>: the number of bytes of a block for \<open>cap\<close> objects of type \<open>T\<close> is
  representable in \<^verbatim>\<open>size_t\<close> (and \<^verbatim>\<open>sizeof(T)\<close> is positive, as it is for every C++ type).
  Such a request gives a block with exactly \<open>cap\<close> slots.
\<close>

definition fits :: "env \<Rightarrow> nat \<Rightarrow> bool" where
  "fits E cap \<longleftrightarrow> 0 < sizeof_T E \<and> sizeof_storage + sizeof_T E * cap < 2 ^ 64"

lemma fits_mono: "fits E cap \<Longrightarrow> cap' \<le> cap \<Longrightarrow> fits E cap'"
proof -
  assume f: "fits E cap" and le: "cap' \<le> cap"
  have "sizeof_T E * cap' \<le> sizeof_T E * cap" using le by (rule mult_le_mono2)
  with f show ?thesis unfolding fits_def by linarith
qed

lemma fits_less: "fits E cap \<Longrightarrow> cap < 2 ^ 64"
proof -
  assume f: "fits E cap"
  then have "1 * cap \<le> sizeof_T E * cap" by (intro mult_le_mono1) (simp add: fits_def)
  with f show ?thesis unfolding fits_def by linarith
qed

lemma size_t_fits [simp]: "fits E cap \<Longrightarrow> size_t cap = cap"
  using fits_less[of E cap] by (simp add: size_t_def)

lemma size_t_less: "n < 2 ^ 64 \<Longrightarrow> size_t n = n"
  by (simp add: size_t_def)

lemma get_new_empty_storage_fits:
  assumes "fits E cap"
  shows "get_new_empty_storage E w cap =
           Some (w\<lparr>heap := (heap w)(next_addr w \<mapsto>
                     \<lparr>ds_capacity = cap, ds_references = 1, ds_data = replicate cap None\<rparr>),
                   next_addr := Suc (next_addr w)\<rparr>,
                 next_addr w)"
proof -
  from assms have "size_t (sizeof_storage + sizeof_T E * cap) = sizeof_storage + sizeof_T E * cap"
    by (simp add: fits_def size_t_def)
  with assms show ?thesis by (simp add: get_new_empty_storage_def fits_def)
qed

section \<open>Arrays of slots\<close>

text \<open>
  An array of \<open>cap\<close> slots whose first \<open>length xs\<close> slots hold the objects \<open>xs\<close> and whose
  other slots are raw.
\<close>

definition slots :: "nat \<Rightarrow> 'a list \<Rightarrow> 'a option list" where
  "slots cap xs = map Some xs @ replicate (cap - length xs) None"

lemma length_slots [simp]: "length xs \<le> cap \<Longrightarrow> length (slots cap xs) = cap"
  by (simp add: slots_def)

lemma nth_slots:
  "i < cap \<Longrightarrow> length xs \<le> cap \<Longrightarrow>
     slots cap xs ! i = (if i < length xs then Some (xs ! i) else None)"
  by (simp add: slots_def nth_append)

lemma slots_Nil [simp]: "slots cap [] = replicate cap None"
  by (simp add: slots_def)

lemma slots_eqI:
  assumes "length arr = cap" and "length xs \<le> cap"
    and "\<And>i. i < cap \<Longrightarrow> arr ! i = (if i < length xs then Some (xs ! i) else None)"
  shows "arr = slots cap xs"
  using assms by (intro nth_equalityI) (simp_all add: nth_slots)

lemma slots_eq_iff:
  "length xs \<le> cap \<Longrightarrow> length ys \<le> cap \<Longrightarrow> slots cap xs = slots cap ys \<longleftrightarrow> xs = ys"
proof
  assume le: "length xs \<le> cap" "length ys \<le> cap" and eq: "slots cap xs = slots cap ys"
  have len: "length xs = length ys"
  proof (rule ccontr)
    assume ne: "length xs \<noteq> length ys"
    show False
    proof (cases "length xs < length ys")
      case True
      with le have "slots cap xs ! length xs = None" "slots cap ys ! length xs \<noteq> None"
        by (simp_all add: nth_slots)
      with eq show False by simp
    next
      case False
      with ne have lt: "length ys < length xs" by simp
      with le have "slots cap ys ! length ys = None" "slots cap xs ! length ys \<noteq> None"
        by (simp_all add: nth_slots)
      with eq show False by simp
    qed
  qed
  show "xs = ys"
  proof (rule nth_equalityI[OF len])
    fix i assume i: "i < length xs"
    with le len have "slots cap xs ! i = Some (xs ! i)" "slots cap ys ! i = Some (ys ! i)"
      by (simp_all add: nth_slots)
    with eq show "xs ! i = ys ! i" by simp
  qed
qed simp

lemma take_slots: "length xs \<le> cap \<Longrightarrow> take (length xs) (slots cap xs) = map Some xs"
  by (simp add: slots_def)

lemma slots_update_append:
  "length xs < cap \<Longrightarrow> (slots cap xs)[length xs := Some x] = slots cap (xs @ [x])"
  by (rule slots_eqI) (auto simp: nth_slots nth_list_update nth_append)

lemma slots_update_butlast:
  "xs \<noteq> [] \<Longrightarrow> length xs \<le> cap \<Longrightarrow>
     (slots cap xs)[length xs - 1 := None] = slots cap (butlast xs)"
  by (rule slots_eqI) (auto simp: nth_slots nth_list_update nth_butlast)

lemma length_destroy_n [simp]: "length (destroy_n arr first n) = length arr"
  by (induction arr first n rule: destroy_n.induct) simp_all

lemma nth_destroy_n:
  "i < length arr \<Longrightarrow>
     destroy_n arr first n ! i = (if first \<le> i \<and> i < first + n then None else arr ! i)"
  by (induction arr first n rule: destroy_n.induct) (auto simp: nth_list_update)

lemma destroy_n_slots:
  "k \<le> length xs \<Longrightarrow> length xs \<le> cap \<Longrightarrow>
     destroy_n (slots cap xs) k (length xs - k) = slots cap (take k xs)"
  by (rule slots_eqI) (auto simp: nth_destroy_n nth_slots)

lemma destroy_n_raw:
  "length xs \<le> cap \<Longrightarrow> length xs \<le> first \<Longrightarrow> destroy_n (slots cap xs) first n = slots cap xs"
  by (rule slots_eqI) (auto simp: nth_destroy_n nth_slots)

lemma destroy_n_replicate [simp]: "destroy_n (replicate m None) first n = replicate m None"
  by (rule nth_equalityI) (auto simp: nth_destroy_n)

subsection \<open>uninitialized copy\<close>

lemma uninitialized_copy_loop_result:
  assumes "\<And>k. i \<le> k \<Longrightarrow> k < i + n \<Longrightarrow> k < length src \<and> src ! k \<noteq> None"
    and "first + i + n \<le> length dst"
  shows "case uninitialized_copy_loop E w src dst first i n of
           Done (w', dst') \<Rightarrow>
             w' = w\<lparr>copies := copies w + n\<rparr> \<and> length dst' = length dst \<and>
             (\<forall>j<length dst. dst' ! j =
                (if first + i \<le> j \<and> j < first + i + n then src ! (j - first) else dst ! j))
         | Threw (w', dst') \<Rightarrow>
             (\<exists>k<n. copy_throws E (copies w + k) \<and> w' = w\<lparr>copies := copies w + Suc k\<rparr> \<and>
                length dst' = length dst \<and>
                (\<forall>j<length dst. dst' ! j =
                   (if first \<le> j \<and> j < first + i + k then None else dst ! j)))
         | Abort \<Rightarrow> False"
  using assms
proof (induction n arbitrary: w dst i)
  case 0
  then show ?case by auto
next
  case (Suc n)
  from Suc.prems(1)[of i] obtain x where x: "i < length src" "src ! i = Some x" by auto
  from Suc.prems(2) have bound: "first + i < length dst" by simp
  show ?case
  proof (cases "copy_throws E (copies w)")
    case True
    then show ?thesis using x bound
      by (auto simp: copy_construct_def nth_destroy_n intro!: exI[of _ 0])
  next
    case False
    let ?w = "w\<lparr>copies := Suc (copies w)\<rparr>"
    let ?dst = "dst[first + i := Some x]"
    have step: "uninitialized_copy_loop E w src dst first i (Suc n) =
                uninitialized_copy_loop E ?w src ?dst first (Suc i) n"
      using x bound False by (simp add: copy_construct_def)
    have ih: "case uninitialized_copy_loop E ?w src ?dst first (Suc i) n of
           Done (w', dst') \<Rightarrow>
             w' = ?w\<lparr>copies := copies ?w + n\<rparr> \<and> length dst' = length ?dst \<and>
             (\<forall>j<length ?dst. dst' ! j =
                (if first + Suc i \<le> j \<and> j < first + Suc i + n then src ! (j - first) else ?dst ! j))
         | Threw (w', dst') \<Rightarrow>
             (\<exists>k<n. copy_throws E (copies ?w + k) \<and> w' = ?w\<lparr>copies := copies ?w + Suc k\<rparr> \<and>
                length dst' = length ?dst \<and>
                (\<forall>j<length ?dst. dst' ! j =
                   (if first \<le> j \<and> j < first + Suc i + k then None else ?dst ! j)))
         | Abort \<Rightarrow> False"
      using Suc.prems by (intro Suc.IH) auto
    show ?thesis
    proof (cases "uninitialized_copy_loop E ?w src ?dst first (Suc i) n")
      case (Done r)
      then show ?thesis using ih x bound unfolding step
        by (auto simp: nth_list_update split: prod.splits)
    next
      case (Threw r)
      obtain w' dst' where r: "r = (w', dst')" by (cases r)
      from ih Threw r obtain k where k: "k < n" "copy_throws E (Suc (copies w) + k)"
        "w' = ?w\<lparr>copies := Suc (copies w) + Suc k\<rparr>" "length dst' = length dst"
        "\<forall>j<length dst. dst' ! j = (if first \<le> j \<and> j < first + Suc i + k then None else ?dst ! j)"
        by auto
      show ?thesis unfolding step Threw r
        using k bound by (auto simp: nth_list_update intro!: exI[of _ "Suc k"])
    next
      case Abort
      then show ?thesis using ih by simp
    qed
  qed
qed

section \<open>Well-formed handles\<close>

text \<open>
  The element values a handle reports are what the const \<^verbatim>\<open>operator[]\<close> returns at the
  indices below \<^verbatim>\<open>size()\<close> (\<open>contents\<close>, and \<open>elems\<close> for the values themselves). A handle is
  \<open>valid\<close> when its live objects are exactly the first \<^verbatim>\<open>size()\<close> slots of its array, an
  inline handle has at most \<open>SMALL_SIZE\<close> elements, and a heap handle points to a block of
  capacity above \<open>SMALL_SIZE\<close> with a positive reference count. \<open>own\<close> is the block a
  handle holds a reference to, \<open>release\<close> what dropping one reference does to the store,
  and \<open>alloc_ok\<close> says that no block lives at an address not handed out yet.
\<close>

definition contents :: "'a world \<Rightarrow> 'a socow_vector \<Rightarrow> 'a option list" where
  "contents w v = map (index_const w v) [0..<sv_size v]"

definition elems :: "'a world \<Rightarrow> 'a socow_vector \<Rightarrow> 'a list" where
  "elems w v = map the (contents w v)"

definition own :: "'a socow_vector \<Rightarrow> nat option" where
  "own v = (if is_small v then None else dynamic_data v)"

definition alloc_ok :: "'a world \<Rightarrow> bool" where
  "alloc_ok w = (\<forall>a. next_addr w \<le> a \<longrightarrow> heap w a = None)"

definition valid :: "env \<Rightarrow> 'a world \<Rightarrow> 'a socow_vector \<Rightarrow> bool" where
  "valid E w v =
     (if is_small v then
        sv_size v \<le> SMALL_SIZE E \<and> static_data v = slots (SMALL_SIZE E) (elems w v)
      else
        static_data v = replicate (SMALL_SIZE E) None \<and>
        (case deref w (dynamic_data v) of
           None \<Rightarrow> False
         | Some d \<Rightarrow>
             sv_size v \<le> ds_capacity d \<and> SMALL_SIZE E < ds_capacity d \<and>
             0 < ds_references d \<and> ds_data d = slots (ds_capacity d) (elems w v)))"

definition release ::
  "(nat \<Rightarrow> 'a dynamic_storage option) \<Rightarrow> nat option \<Rightarrow> nat \<Rightarrow> 'a dynamic_storage option" where
  "release h p =
     (case p of
        None \<Rightarrow> h
      | Some a \<Rightarrow>
          (case h a of
             None \<Rightarrow> h
           | Some d \<Rightarrow>
               if ds_references d = 1 then h(a := None)
               else h(a \<mapsto> d\<lparr>ds_references := ds_references d - 1\<rparr>)))"

lemma length_elems [simp]: "length (elems w v) = sv_size v"
  by (simp add: elems_def contents_def)

lemma contents_small:
  "is_small v \<Longrightarrow> sv_size v \<le> length (static_data v) \<Longrightarrow>
     contents w v = take (sv_size v) (static_data v)"
  by (auto simp: contents_def index_const_def data_const_def intro!: nth_equalityI)

lemma contents_heap:
  "\<not> is_small v \<Longrightarrow> deref w (dynamic_data v) = Some d \<Longrightarrow> sv_size v \<le> length (ds_data d) \<Longrightarrow>
     contents w v = take (sv_size v) (ds_data d)"
  by (auto simp: contents_def index_const_def data_const_def intro!: nth_equalityI)

lemma valid_smallI:
  assumes "is_small v" and "sv_size v = length xs" and "length xs \<le> SMALL_SIZE E"
    and "static_data v = slots (SMALL_SIZE E) xs"
  shows "valid E w v" and "elems w v = xs"
proof -
  have "contents w v = map Some xs"
    using assms by (simp add: contents_small take_slots)
  then show e: "elems w v = xs" by (simp add: elems_def comp_def)
  show "valid E w v" using assms by (simp add: valid_def e)
qed

lemma valid_heapI:
  assumes "\<not> is_small v" and "sv_size v = length xs"
    and "static_data v = replicate (SMALL_SIZE E) None"
    and "dynamic_data v = Some p" and "heap w p = Some d"
    and "length xs \<le> ds_capacity d" and "SMALL_SIZE E < ds_capacity d" and "0 < ds_references d"
    and "ds_data d = slots (ds_capacity d) xs"
  shows "valid E w v" and "elems w v = xs"
proof -
  have "contents w v = map Some xs"
    using assms by (simp add: contents_heap[of v w d] deref_def take_slots)
  then show e: "elems w v = xs" by (simp add: elems_def comp_def)
  show "valid E w v" using assms by (simp add: valid_def e deref_def)
qed

lemma valid_smallD:
  assumes "valid E w v" and "is_small v"
  shows "sv_size v \<le> SMALL_SIZE E" and "static_data v = slots (SMALL_SIZE E) (elems w v)"
    and "own v = None"
  using assms by (simp_all add: valid_def own_def)

lemma valid_heapD:
  assumes "valid E w v" and "\<not> is_small v"
  obtains p d where "dynamic_data v = Some p" and "heap w p = Some d" and "own v = Some p"
    and "static_data v = replicate (SMALL_SIZE E) None"
    and "sv_size v \<le> ds_capacity d" and "SMALL_SIZE E < ds_capacity d" and "0 < ds_references d"
    and "ds_data d = slots (ds_capacity d) (elems w v)"
  using assms by (auto simp: valid_def deref_def own_def split: option.splits)

lemma valid_new_vector: "valid E w (new_vector E)" and elems_new_vector: "elems w (new_vector E) = []"
  using valid_smallI[of "new_vector E" "[]" E w] by (simp_all add: new_vector_def)

lemma alloc_ok_below: "alloc_ok w \<Longrightarrow> heap w a = Some d \<Longrightarrow> a < next_addr w"
  by (auto simp: alloc_ok_def not_le[symmetric])

lemma alloc_ok_fresh: "alloc_ok w \<Longrightarrow> heap w (next_addr w) = None"
  by (simp add: alloc_ok_def)

lemma release_None [simp]: "release h None = h"
  by (simp add: release_def)

lemma release_other: "p \<noteq> Some a \<Longrightarrow> release h p a = h a"
  by (auto simp: release_def split: option.splits)

lemma release_upd_other:
  "p \<noteq> Some a \<Longrightarrow> release (h(a := x)) p = (release h p)(a := x)"
  by (auto simp: release_def fun_upd_twist split: option.splits)

lemma dec_references_valid:
  assumes "valid E w v"
  shows "dec_references w v =
           Done (w\<lparr>heap := release (heap w) (own v)\<rparr>,
                 v\<lparr>static_data := replicate (SMALL_SIZE E) None\<rparr>)"
proof (cases "is_small v")
  case True
  from valid_smallD[OF assms True] have
    "destroy_n (static_data v) 0 (sv_size v) = replicate (SMALL_SIZE E) None"
    using destroy_n_slots[of 0 "elems w v" "SMALL_SIZE E"] by simp
  with True show ?thesis by (simp add: dec_references_def own_def)
next
  case False
  from assms False obtain p d where "dynamic_data v = Some p" "heap w p = Some d"
    "static_data v = replicate (SMALL_SIZE E) None" "0 < ds_references d"
    by (rule valid_heapD)
  with False show ?thesis
    by (auto simp: dec_references_def dec_references_at_def own_def release_def Let_def)
qed

lemma destructor_valid:
  "valid E w v \<Longrightarrow> destructor w v = Done (w\<lparr>heap := release (heap w) (own v)\<rparr>)"
  by (simp add: destructor_def dec_references_valid)

subsection \<open>Copying into raw storage\<close>

lemma uninitialized_copy_n_slots:
  assumes src: "\<And>k. k < n \<Longrightarrow> k < length src \<and> src ! k = Some (ys ! k)"
    and len: "length ys = n" and fit: "length xs + n \<le> cap"
  shows "uninitialized_copy_n E w src n (slots cap xs) (length xs) =
             Done (w\<lparr>copies := copies w + n\<rparr>, slots cap (xs @ ys))
         \<or> (\<exists>k<n. copy_throws E (copies w + k) \<and>
              uninitialized_copy_n E w src n (slots cap xs) (length xs) =
                Threw (w\<lparr>copies := copies w + Suc k\<rparr>, slots cap xs))"
proof -
  let ?dst = "slots cap xs"
  have lx: "length xs \<le> cap" using fit by simp
  have r: "case uninitialized_copy_loop E w src ?dst (length xs) 0 n of
           Done (w', dst') \<Rightarrow>
             w' = w\<lparr>copies := copies w + n\<rparr> \<and> length dst' = length ?dst \<and>
             (\<forall>j<length ?dst. dst' ! j =
                (if length xs + 0 \<le> j \<and> j < length xs + 0 + n then src ! (j - length xs) else ?dst ! j))
         | Threw (w', dst') \<Rightarrow>
             (\<exists>k<n. copy_throws E (copies w + k) \<and> w' = w\<lparr>copies := copies w + Suc k\<rparr> \<and>
                length dst' = length ?dst \<and>
                (\<forall>j<length ?dst. dst' ! j =
                   (if length xs \<le> j \<and> j < length xs + 0 + k then None else ?dst ! j)))
         | Abort \<Rightarrow> False"
    using src fit lx by (intro uninitialized_copy_loop_result) auto
  show ?thesis
  proof (cases "uninitialized_copy_loop E w src ?dst (length xs) 0 n")
    case (Done r')
    obtain w' dst' where r': "r' = (w', dst')" by (cases r')
    from r Done r' have w': "w' = w\<lparr>copies := copies w + n\<rparr>" and l: "length dst' = cap"
      and nth: "\<And>j. j < cap \<Longrightarrow> dst' ! j =
                (if length xs \<le> j \<and> j < length xs + n then src ! (j - length xs) else ?dst ! j)"
      using lx by auto
    have "dst' = slots cap (xs @ ys)"
      using l len fit lx src by (intro slots_eqI) (auto simp: nth nth_slots nth_append)
    with Done r' w' show ?thesis by (simp add: uninitialized_copy_n_def)
  next
    case (Threw r')
    obtain w' dst' where r': "r' = (w', dst')" by (cases r')
    from r Threw r' obtain k where k: "k < n" "copy_throws E (copies w + k)"
      "w' = w\<lparr>copies := copies w + Suc k\<rparr>" "length dst' = cap"
      and nth: "\<And>j. j < cap \<Longrightarrow> dst' ! j =
                   (if length xs \<le> j \<and> j < length xs + k then None else ?dst ! j)"
      using lx by auto
    have "dst' = slots cap xs"
      using k lx by (intro slots_eqI) (auto simp: nth nth_slots)
    with Threw r' k show ?thesis by (auto simp: uninitialized_copy_n_def)
  next
    case Abort
    with r show ?thesis by simp
  qed
qed

lemma uninitialized_copy_n_raw:
  assumes src: "\<And>k. k < n \<Longrightarrow> k < length src \<and> src ! k = Some (ys ! k)"
    and len: "length ys = n" and fit: "n \<le> cap"
  shows "uninitialized_copy_n E w src n (replicate cap None) 0 =
             Done (w\<lparr>copies := copies w + n\<rparr>, slots cap ys)
         \<or> (\<exists>k<n. copy_throws E (copies w + k) \<and>
              uninitialized_copy_n E w src n (replicate cap None) 0 =
                Threw (w\<lparr>copies := copies w + Suc k\<rparr>, replicate cap None))"
  using uninitialized_copy_n_slots[of n src ys "[]" cap E w] assms by simp

subsection \<open>get_copied_storage\<close>

lemma get_copied_storage_cases:
  assumes src: "\<And>k. k < sz \<Longrightarrow> k < length src \<and> src ! k = Some (ys ! k)"
    and len: "length ys = sz" and fit: "sz \<le> cap" and fits: "fits E cap"
  shows "get_copied_storage E w src sz cap =
           Done (w\<lparr>heap := (heap w)(next_addr w \<mapsto>
                    \<lparr>ds_capacity = cap, ds_references = 1, ds_data = slots cap ys\<rparr>),
                   next_addr := Suc (next_addr w), copies := copies w + sz\<rparr>, next_addr w)
         \<or> (\<exists>k<sz. copy_throws E (copies w + k) \<and>
              get_copied_storage E w src sz cap =
                Threw (w\<lparr>heap := (heap w)(next_addr w := None),
                        next_addr := Suc (next_addr w), copies := copies w + Suc k\<rparr>))"
proof -
  let ?w1 = "w\<lparr>heap := (heap w)(next_addr w \<mapsto>
            \<lparr>ds_capacity = cap, ds_references = 1, ds_data = replicate cap None\<rparr>),
        next_addr := Suc (next_addr w)\<rparr>"
  from uninitialized_copy_n_raw[OF src len fit, of E ?w1]
  show ?thesis
  proof
    assume "uninitialized_copy_n E ?w1 src sz (replicate cap None) 0 =
      Done (?w1\<lparr>copies := copies ?w1 + sz\<rparr>, slots cap ys)"
    then show ?thesis using fit
      by (simp add: get_copied_storage_def get_new_empty_storage_fits[OF fits] deref_def)
  next
    assume "\<exists>k<sz. copy_throws E (copies ?w1 + k) \<and>
      uninitialized_copy_n E ?w1 src sz (replicate cap None) 0 =
        Threw (?w1\<lparr>copies := copies ?w1 + Suc k\<rparr>, replicate cap None)"
    then obtain k where "k < sz" "copy_throws E (copies w + k)"
      "uninitialized_copy_n E ?w1 src sz (replicate cap None) 0 =
        Threw (?w1\<lparr>copies := copies ?w1 + Suc k\<rparr>, replicate cap None)" by auto
    then show ?thesis using fit
      by (auto simp: get_copied_storage_def get_new_empty_storage_fits[OF fits] deref_def)
  qed
qed

section \<open>What one call may do to the store\<close>

text \<open>
  \<open>step_ok E w v w' v'\<close> relates a handle and the world before and after a call on that
  handle: blocks of other handles are untouched, a block allocated by the call is the
  handle's own and exclusively owned, and the block the handle held before either is
  still held (and not modified while shared) or has lost exactly one reference.
\<close>

definition step_ok ::
  "env \<Rightarrow> 'a world \<Rightarrow> 'a socow_vector \<Rightarrow> 'a world \<Rightarrow> 'a socow_vector \<Rightarrow> bool" where
  "step_ok E w v w' v' =
     (alloc_ok w' \<and> next_addr w \<le> next_addr w' \<and> valid E w' v' \<and>
      (\<forall>a. a < next_addr w \<longrightarrow> own v \<noteq> Some a \<longrightarrow> heap w' a = heap w a \<and> own v' \<noteq> Some a) \<and>
      (\<forall>a. next_addr w \<le> a \<longrightarrow> heap w' a \<noteq> None \<longrightarrow>
           own v' = Some a \<and> map_option ds_references (heap w' a) = Some 1) \<and>
      (\<forall>a d. own v = Some a \<longrightarrow> heap w a = Some d \<longrightarrow>
           (if own v' = Some a then
              (\<exists>d'. heap w' a = Some d' \<and> ds_references d' = ds_references d \<and>
                    ds_capacity d' = ds_capacity d \<and>
                    (1 < ds_references d \<longrightarrow> d' = d \<and> sv_size v' = sv_size v))
            else heap w' a =
                   (if ds_references d = 1 then None
                    else Some (d\<lparr>ds_references := ds_references d - 1\<rparr>)))))"

lemma contents_frame:
  assumes "\<And>a. own v = Some a \<Longrightarrow> heap w' a = heap w a"
  shows "contents w' v = contents w v"
proof (cases "is_small v")
  case True
  then show ?thesis by (simp add: contents_def index_const_def data_const_def)
next
  case False
  show ?thesis
  proof (cases "dynamic_data v")
    case None
    with False show ?thesis by (simp add: contents_def index_const_def data_const_def deref_def)
  next
    case (Some a)
    with False have "own v = Some a" by (simp add: own_def)
    then have "heap w' a = heap w a" by (rule assms)
    with False Some show ?thesis
      by (simp add: contents_def index_const_def data_const_def deref_def)
  qed
qed

lemma elems_frame:
  assumes "\<And>a. own v = Some a \<Longrightarrow> heap w' a = heap w a"
  shows "elems w' v = elems w v"
  unfolding elems_def using contents_frame[of v w' w, OF assms] by simp

lemma valid_frame:
  assumes "\<And>a. own v = Some a \<Longrightarrow> heap w' a = heap w a"
  shows "valid E w' v = valid E w v"
proof -
  have e: "elems w' v = elems w v" using assms by (rule elems_frame)
  show ?thesis
  proof (cases "is_small v")
    case True
    then show ?thesis by (simp add: valid_def e)
  next
    case False
    show ?thesis
    proof (cases "dynamic_data v")
      case None
      with False show ?thesis by (simp add: valid_def deref_def)
    next
      case (Some a)
      with False have "own v = Some a" by (simp add: own_def)
      then have "heap w' a = heap w a" by (rule assms)
      with False Some show ?thesis by (simp add: valid_def e deref_def split: option.splits)
    qed
  qed
qed

lemma valid_own_below:
  "valid E w v \<Longrightarrow> alloc_ok w \<Longrightarrow> own v = Some a \<Longrightarrow> a < next_addr w"
  by (cases "is_small v") (auto simp: own_def elim!: valid_heapD dest: alloc_ok_below)

lemma alloc_ok_mono:
  "alloc_ok w \<Longrightarrow> heap w' = heap w \<Longrightarrow> next_addr w \<le> next_addr w' \<Longrightarrow> alloc_ok w'"
  by (auto simp: alloc_ok_def)

lemma valid_capacity:
  assumes "valid E w v"
  obtains c where "capacity E w v = Some c" and "data_const w v = Some (slots c (elems w v))"
    and "sv_size v \<le> c" and "SMALL_SIZE E \<le> c" and "is_small v \<longleftrightarrow> c = SMALL_SIZE E"
proof (cases "is_small v")
  case True
  with valid_smallD[OF assms True] show ?thesis
    by (intro that[of "SMALL_SIZE E"]) (simp_all add: capacity_def data_const_def)
next
  case False
  from assms False obtain p d where "dynamic_data v = Some p" "heap w p = Some d"
    "sv_size v \<le> ds_capacity d" "SMALL_SIZE E < ds_capacity d"
    "ds_data d = slots (ds_capacity d) (elems w v)"
    by (rule valid_heapD)
  with False show ?thesis
    by (intro that[of "ds_capacity d"]) (simp_all add: capacity_def data_const_def deref_def)
qed

lemma valid_copied:
  assumes "valid E w v"
  shows "copied w v = Some (\<exists>a d. own v = Some a \<and> heap w a = Some d \<and> 1 < ds_references d)"
proof (cases "is_small v")
  case True
  then show ?thesis by (simp add: copied_def own_def)
next
  case False
  from assms False obtain p d where "dynamic_data v = Some p" "heap w p = Some d"
    by (rule valid_heapD)
  with False show ?thesis by (simp add: copied_def own_def deref_def)
qed

subsection \<open>Shapes of a step\<close>

lemma step_ok_unchanged:
  assumes "alloc_ok w" and "valid E w v" and "heap w' = heap w" and "next_addr w \<le> next_addr w'"
  shows "step_ok E w v w' v"
  using assms valid_frame[of v w' w E] alloc_ok_mono[of w w']
  by (auto simp: step_ok_def alloc_ok_def dest: valid_own_below)

lemma step_ok_in_place_small:
  assumes "alloc_ok w" and "is_small v" and "is_small v'" and "valid E w' v'"
    and "heap w' = heap w" and "next_addr w \<le> next_addr w'"
  shows "step_ok E w v w' v'"
  using assms alloc_ok_mono[of w w']
  by (auto simp: step_ok_def alloc_ok_def own_def)

lemma step_ok_in_place_heap:
  assumes "alloc_ok w" and "own v = Some p" and "own v' = Some p" and "heap w p = Some d"
    and "ds_references d = 1" and "heap w' = (heap w)(p \<mapsto> d')" and "ds_references d' = 1"
    and "ds_capacity d' = ds_capacity d" and "valid E w' v'" and "next_addr w \<le> next_addr w'"
  shows "step_ok E w v w' v'"
  using assms
  by (auto simp: step_ok_def alloc_ok_def)

lemma step_ok_moved:
  assumes "alloc_ok w" and "valid E w v"
    and "heap w' = (release (heap w) (own v))(a \<mapsto> blk)"
    and "next_addr w \<le> a" and "a < next_addr w'" and "ds_references blk = 1"
    and "valid E w' v'" and "own v' = Some a"
  shows "step_ok E w v w' v'"
proof -
  have below: "\<And>b. own v = Some b \<Longrightarrow> b < next_addr w"
    using valid_own_below[OF assms(2,1)] by simp
  have al: "alloc_ok w'"
    using assms(1,3,4,5) by (auto simp: alloc_ok_def release_def split: option.splits)
  show ?thesis
    unfolding step_ok_def
    using assms al below
    by (auto simp: release_other alloc_ok_def release_def split: option.splits)
qed

lemma step_ok_inlined:
  assumes "alloc_ok w" and "valid E w v"
    and "heap w' = release (heap w) (own v)"
    and "next_addr w \<le> next_addr w'" and "valid E w' v'" and "is_small v'"
  shows "step_ok E w v w' v'"
proof -
  have al: "alloc_ok w'"
    using assms(1,3,4) by (auto simp: alloc_ok_def release_def split: option.splits)
  show ?thesis
    unfolding step_ok_def
    using assms al
    by (auto simp: release_other alloc_ok_def release_def own_def split: option.splits)
qed

subsection \<open>copy_on_write and what is built on it\<close>

lemma valid_source:
  assumes "valid E w v" and "data_const w v = Some src" and "k < sz" and "sz \<le> sv_size v"
  shows "k < length src \<and> src ! k = Some (take sz (elems w v) ! k)"
proof -
  from assms(1) obtain c where "data_const w v = Some (slots c (elems w v))" "sv_size v \<le> c"
    by (rule valid_capacity)
  moreover have "length (elems w v) = sv_size v" by simp
  ultimately show ?thesis using assms by (auto simp: nth_slots)
qed

definition moved_to ::
  "env \<Rightarrow> 'a world \<Rightarrow> 'a socow_vector \<Rightarrow> nat \<Rightarrow> 'a list \<Rightarrow> nat \<Rightarrow> 'a world" where
  "moved_to E w v cap ys c =
     w\<lparr>heap := (release (heap w) (own v))(next_addr w \<mapsto>
          \<lparr>ds_capacity = cap, ds_references = 1, ds_data = slots cap ys\<rparr>),
       next_addr := Suc (next_addr w), copies := c\<rparr>"

definition heap_vec :: "env \<Rightarrow> nat \<Rightarrow> nat \<Rightarrow> 'a socow_vector" where
  "heap_vec E n a =
     \<lparr>sv_size = n, is_small = False, static_data = replicate (SMALL_SIZE E) None,
      dynamic_data = Some a\<rparr>"

lemma own_heap_vec [simp]: "own (heap_vec E n a) = Some a"
  by (simp add: own_def heap_vec_def)

lemma heap_vec_sel [simp]:
  "sv_size (heap_vec E n a) = n" "\<not> is_small (heap_vec E n a)"
  "dynamic_data (heap_vec E n a) = Some a"
  "static_data (heap_vec E n a) = replicate (SMALL_SIZE E) None"
  by (simp_all add: heap_vec_def)

lemma valid_heap_vec:
  assumes "heap w a = Some \<lparr>ds_capacity = cap, ds_references = r, ds_data = slots cap ys\<rparr>"
    and "length ys \<le> cap" and "SMALL_SIZE E < cap" and "0 < r"
  shows "valid E w (heap_vec E (length ys) a)" and "elems w (heap_vec E (length ys) a) = ys"
  using valid_heapI[of "heap_vec E (length ys) a" ys E a w
          "\<lparr>ds_capacity = cap, ds_references = r, ds_data = slots cap ys\<rparr>"] assms
  by simp_all

lemma copy_on_write_cases:
  assumes v: "valid E w v" and al: "alloc_ok w" and fit: "sv_size v \<le> cap"
    and fits: "fits E cap"
  shows "copy_on_write E w v cap =
           Done (moved_to E w v cap (elems w v) (copies w + sv_size v),
                 heap_vec E (sv_size v) (next_addr w))
         \<or> (\<exists>k<sv_size v. copy_throws E (copies w + k) \<and>
              copy_on_write E w v cap =
                Threw (w\<lparr>next_addr := Suc (next_addr w), copies := copies w + Suc k\<rparr>, v))"
proof -
  from v obtain c where dc: "data_const w v = Some (slots c (elems w v))" and c: "sv_size v \<le> c"
    by (rule valid_capacity)
  let ?src = "slots c (elems w v)"
  have src: "\<And>k. k < sv_size v \<Longrightarrow> k < length ?src \<and> ?src ! k = Some (elems w v ! k)"
    using c by (simp add: nth_slots)
  let ?w1 = "w\<lparr>heap := (heap w)(next_addr w \<mapsto>
                    \<lparr>ds_capacity = cap, ds_references = 1, ds_data = slots cap (elems w v)\<rparr>),
                   next_addr := Suc (next_addr w), copies := copies w + sv_size v\<rparr>"
  have ne: "own v \<noteq> Some (next_addr w)"
    using valid_own_below[OF v al] by auto
  have "length (elems w v) = sv_size v" by simp
  from get_copied_storage_cases[of "sv_size v" ?src "elems w v" cap E w, OF src this fit fits]
  show ?thesis
  proof
    assume g: "get_copied_storage E w ?src (sv_size v) cap = Done (?w1, next_addr w)"
    have v1: "valid E ?w1 v"
      using v ne by (subst valid_frame[of v ?w1 w]) auto
    have "copy_on_write E w v cap =
           Done (moved_to E w v cap (elems w v) (copies w + sv_size v),
                 heap_vec E (sv_size v) (next_addr w))"
      using fit dc g dec_references_valid[OF v1] ne
      by (simp add: copy_on_write_def moved_to_def heap_vec_def release_upd_other)
    then show ?thesis ..
  next
    assume "\<exists>k<sv_size v. copy_throws E (copies w + k) \<and>
              get_copied_storage E w ?src (sv_size v) cap =
                Threw (w\<lparr>heap := (heap w)(next_addr w := None),
                        next_addr := Suc (next_addr w), copies := copies w + Suc k\<rparr>)"
    then obtain k where k: "k < sv_size v" "copy_throws E (copies w + k)"
      and g: "get_copied_storage E w ?src (sv_size v) cap =
                Threw (w\<lparr>heap := (heap w)(next_addr w := None),
                        next_addr := Suc (next_addr w), copies := copies w + Suc k\<rparr>)"
      by auto
    have "(heap w)(next_addr w := None) = heap w"
      using alloc_ok_fresh[OF al] by (simp add: fun_upd_idem)
    with g k fit dc show ?thesis
      by (auto simp: copy_on_write_def)
  qed
qed

lemma moved_to_sel [simp]:
  "heap (moved_to E w v cap ys c) = (release (heap w) (own v))(next_addr w \<mapsto>
          \<lparr>ds_capacity = cap, ds_references = 1, ds_data = slots cap ys\<rparr>)"
  "next_addr (moved_to E w v cap ys c) = Suc (next_addr w)"
  "copies (moved_to E w v cap ys c) = c"
  by (simp_all add: moved_to_def)

lemma moved_to_ok:
  assumes "valid E w v" and "alloc_ok w" and "length ys \<le> cap" and "SMALL_SIZE E < cap"
  shows "step_ok E w v (moved_to E w v cap ys c) (heap_vec E (length ys) (next_addr w))"
    and "elems (moved_to E w v cap ys c) (heap_vec E (length ys) (next_addr w)) = ys"
    and "valid E (moved_to E w v cap ys c) (heap_vec E (length ys) (next_addr w))"
proof -
  let ?w' = "moved_to E w v cap ys c" and ?v' = "heap_vec E (length ys) (next_addr w)"
  have h: "heap ?w' (next_addr w) =
     Some \<lparr>ds_capacity = cap, ds_references = 1, ds_data = slots cap ys\<rparr>" by simp
  show v': "valid E ?w' ?v'" and "elems ?w' ?v' = ys"
    using valid_heap_vec[OF h] assms by simp_all
  show "step_ok E w v ?w' ?v'"
    by (rule step_ok_moved[where a="next_addr w" and
          blk="\<lparr>ds_capacity = cap, ds_references = 1, ds_data = slots cap ys\<rparr>"])
       (use assms v' in simp_all)
qed

lemma vec_eqI:
  fixes a b :: "'a socow_vector"
  assumes "sv_size a = sv_size b" and "is_small a = is_small b"
    and "static_data a = static_data b" and "dynamic_data a = dynamic_data b"
  shows "a = b"
  using assms by (intro socow_vector.equality) simp_all

definition small_vec :: "env \<Rightarrow> 'a list \<Rightarrow> nat option \<Rightarrow> 'a socow_vector" where
  "small_vec E ys dyn =
     \<lparr>sv_size = length ys, is_small = True, static_data = slots (SMALL_SIZE E) ys,
      dynamic_data = dyn\<rparr>"

lemma small_vec_sel [simp]:
  "sv_size (small_vec E ys dyn) = length ys" "is_small (small_vec E ys dyn)"
  "static_data (small_vec E ys dyn) = slots (SMALL_SIZE E) ys"
  "dynamic_data (small_vec E ys dyn) = dyn" "own (small_vec E ys dyn) = None"
  by (simp_all add: small_vec_def own_def)

lemma valid_small_vec:
  assumes "length ys \<le> SMALL_SIZE E"
  shows "valid E w (small_vec E ys dyn)" and "elems w (small_vec E ys dyn) = ys"
  using valid_smallI[of "small_vec E ys dyn" ys E w] assms by simp_all

lemma valid_small_eq:
  assumes "valid E w v" and "is_small v"
  shows "v = small_vec E (elems w v) (dynamic_data v)"
  using valid_smallD[OF assms] by (intro vec_eqI) (simp_all add: assms)

lemma valid_heap_eq:
  assumes "valid E w v" and "\<not> is_small v" and "own v = Some p"
  shows "v = heap_vec E (sv_size v) p"
  using assms by (intro vec_eqI) (auto simp: own_def elim: valid_heapD)

lemma new_vector_small_vec: "new_vector E = small_vec E [] None"
  by (simp add: new_vector_def small_vec_def)

lemma inlined_ok:
  assumes "valid E w v" and "alloc_ok w" and "length ys \<le> SMALL_SIZE E"
    and "heap w' = release (heap w) (own v)" and "next_addr w \<le> next_addr w'"
  shows "step_ok E w v w' (small_vec E ys dyn)"
  using assms valid_small_vec[of ys E w' dyn]
  by (intro step_ok_inlined) simp_all

subsection \<open>shrink_big_to_small\<close>

lemma shrink_big_to_small_cases:
  assumes v: "valid E w v" and ns: "\<not> is_small v" and fit: "sv_size v \<le> SMALL_SIZE E"
  shows "shrink_big_to_small E w v =
           Done (w\<lparr>heap := release (heap w) (own v), copies := copies w + sv_size v\<rparr>,
                 small_vec E (elems w v) None)
         \<or> (\<exists>k<sv_size v. copy_throws E (copies w + k) \<and>
              shrink_big_to_small E w v = Threw (w\<lparr>copies := copies w + Suc k\<rparr>, v))"
proof -
  from v ns obtain p d where p: "dynamic_data v = Some p" "heap w p = Some d" "own v = Some p"
    and st: "static_data v = replicate (SMALL_SIZE E) None"
    and d: "sv_size v \<le> ds_capacity d" "0 < ds_references d"
           "ds_data d = slots (ds_capacity d) (elems w v)"
    by (rule valid_heapD)
  have src: "\<And>k. k < sv_size v \<Longrightarrow> k < length (ds_data d) \<and> ds_data d ! k = Some (elems w v ! k)"
    using d by (simp add: nth_slots)
  have len: "length (elems w v) = sv_size v" by simp
  from uninitialized_copy_n_raw[of "sv_size v" "ds_data d" "elems w v" "SMALL_SIZE E" E w,
         OF src len fit]
  show ?thesis
  proof
    assume u: "uninitialized_copy_n E w (ds_data d) (sv_size v) (replicate (SMALL_SIZE E) None) 0 =
      Done (w\<lparr>copies := copies w + sv_size v\<rparr>, slots (SMALL_SIZE E) (elems w v))"
    have "shrink_big_to_small E w v =
           Done (w\<lparr>heap := release (heap w) (own v), copies := copies w + sv_size v\<rparr>,
                 small_vec E (elems w v) None)"
      using p st d u
      by (auto simp: shrink_big_to_small_def deref_def dec_references_at_def release_def
                     small_vec_def Let_def)
    then show ?thesis ..
  next
    assume "\<exists>k<sv_size v. copy_throws E (copies w + k) \<and>
      uninitialized_copy_n E w (ds_data d) (sv_size v) (replicate (SMALL_SIZE E) None) 0 =
        Threw (w\<lparr>copies := copies w + Suc k\<rparr>, replicate (SMALL_SIZE E) None)"
    then obtain k where k: "k < sv_size v" "copy_throws E (copies w + k)"
      and u: "uninitialized_copy_n E w (ds_data d) (sv_size v) (replicate (SMALL_SIZE E) None) 0 =
        Threw (w\<lparr>copies := copies w + Suc k\<rparr>, replicate (SMALL_SIZE E) None)"
      by auto
    have "v\<lparr>dynamic_data := None, static_data := replicate (SMALL_SIZE E) None,
            dynamic_data := Some p\<rparr> = v"
      using p st by (intro vec_eqI) simp_all
    then have "shrink_big_to_small E w v = Threw (w\<lparr>copies := copies w + Suc k\<rparr>, v)"
      using p st u by (simp add: shrink_big_to_small_def deref_def Let_def)
    with k show ?thesis by auto
  qed
qed

subsection \<open>The mutable accessors\<close>

definition shared :: "'a world \<Rightarrow> 'a socow_vector \<Rightarrow> bool" where
  "shared w v = (\<exists>a d. own v = Some a \<and> heap w a = Some d \<and> 1 < ds_references d)"

lemma copied_valid: "valid E w v \<Longrightarrow> copied w v = Some (shared w v)"
  by (simp add: valid_copied shared_def)

lemma not_shared_small [simp]: "is_small v \<Longrightarrow> \<not> shared w v"
  by (simp add: shared_def own_def)

lemma check_cow_cases:
  assumes v: "valid E w v" and al: "alloc_ok w" and c: "capacity E w v = Some c"
    and fits: "shared w v \<longrightarrow> fits E c"
  shows "(\<not> shared w v \<and> check_cow E w v = Done (w, v))
         \<or> (shared w v \<and> check_cow E w v =
               Done (moved_to E w v c (elems w v) (copies w + sv_size v),
                     heap_vec E (sv_size v) (next_addr w)))
         \<or> (shared w v \<and> (\<exists>k<sv_size v. copy_throws E (copies w + k) \<and>
              check_cow E w v =
                Threw (w\<lparr>next_addr := Suc (next_addr w), copies := copies w + Suc k\<rparr>, v)))"
proof (cases "shared w v")
  case False
  then show ?thesis using copied_valid[OF v] by (simp add: check_cow_def)
next
  case True
  from v c have "sv_size v \<le> c" by (auto elim!: valid_capacity)
  moreover from True fits have "fits E c" by simp
  ultimately show ?thesis
    using copy_on_write_cases[OF v al, of c] True c copied_valid[OF v]
    by (auto simp: check_cow_def)
qed

lemma data_mut_cases:
  assumes v: "valid E w v" and al: "alloc_ok w" and c: "capacity E w v = Some c"
    and fits: "shared w v \<longrightarrow> fits E c"
  shows "(\<not> shared w v \<and> data_mut E w v = Done (w, v))
         \<or> (shared w v \<and> data_mut E w v =
               Done (moved_to E w v c (elems w v) (copies w + sv_size v),
                     heap_vec E (sv_size v) (next_addr w)))
         \<or> (shared w v \<and> (\<exists>k<sv_size v. copy_throws E (copies w + k) \<and>
              data_mut E w v =
                Threw (w\<lparr>next_addr := Suc (next_addr w), copies := copies w + Suc k\<rparr>, v)))"
proof (cases "is_small v")
  case True
  then show ?thesis by (simp add: data_mut_def)
next
  case False
  with check_cow_cases[OF assms] show ?thesis by (simp add: data_mut_def)
qed

lemma data_mut_exclusive:
  "valid E w v \<Longrightarrow> \<not> shared w v \<Longrightarrow> data_mut E w v = Done (w, v)"
  by (cases "is_small v") (simp_all add: data_mut_def check_cow_def copied_valid)

subsection \<open>The private constructor\<close>

lemma copy_with_capacity_cases:
  assumes v: "valid E w v" and sz: "sz \<le> sv_size v" and cap: "SMALL_SIZE E < cap" "sz < cap"
    and fits: "fits E cap"
  shows "copy_with_capacity E w v sz cap =
           Done (moved_to E w (new_vector E) cap (take sz (elems w v)) (copies w + sz),
                 heap_vec E sz (next_addr w))
         \<or> (\<exists>k<sz. copy_throws E (copies w + k) \<and>
              copy_with_capacity E w v sz cap =
                Threw (w\<lparr>heap := (heap w)(next_addr w := None),
                        next_addr := Suc (next_addr w), copies := copies w + Suc k\<rparr>))"
proof -
  from v obtain c where dc: "data_const w v = Some (slots c (elems w v))" and c: "sv_size v \<le> c"
    by (rule valid_capacity)
  let ?src = "slots c (elems w v)"
  have src: "\<And>k. k < sz \<Longrightarrow> k < length ?src \<and> ?src ! k = Some (take sz (elems w v) ! k)"
    using c sz by (simp add: nth_slots)
  have len: "length (take sz (elems w v)) = sz" using sz by simp
  have le: "sz \<le> cap" using cap by simp
  from get_copied_storage_cases[of sz ?src "take sz (elems w v)" cap E w, OF src len le fits]
  show ?thesis
  proof
    assume "get_copied_storage E w ?src sz cap =
      Done (w\<lparr>heap := (heap w)(next_addr w \<mapsto>
                \<lparr>ds_capacity = cap, ds_references = 1, ds_data = slots cap (take sz (elems w v))\<rparr>),
              next_addr := Suc (next_addr w), copies := copies w + sz\<rparr>, next_addr w)"
    then show ?thesis using dc cap
      by (simp add: copy_with_capacity_def moved_to_def heap_vec_def own_def new_vector_def)
  next
    assume "\<exists>k<sz. copy_throws E (copies w + k) \<and>
              get_copied_storage E w ?src sz cap =
                Threw (w\<lparr>heap := (heap w)(next_addr w := None),
                        next_addr := Suc (next_addr w), copies := copies w + Suc k\<rparr>)"
    then show ?thesis using dc cap
      by (auto simp: copy_with_capacity_def)
  qed
qed

definition block :: "nat \<Rightarrow> nat \<Rightarrow> 'a list \<Rightarrow> 'a dynamic_storage" where
  "block cap r xs = \<lparr>ds_capacity = cap, ds_references = r, ds_data = slots cap xs\<rparr>"

lemma block_sel [simp]:
  "ds_capacity (block cap r xs) = cap" "ds_references (block cap r xs) = r"
  "ds_data (block cap r xs) = slots cap xs"
  by (simp_all add: block_def)

lemma block_upd [simp]:
  "(block cap r xs)\<lparr>ds_references := r'\<rparr> = block cap r' xs"
  "(block cap r xs)\<lparr>ds_data := slots cap ys\<rparr> = block cap r ys"
  by (simp_all add: block_def)

lemma valid_cases [consumes 1, case_names small heap]:
  assumes "valid E w v"
  obtains (small) xs dyn where "v = small_vec E xs dyn" "length xs \<le> SMALL_SIZE E"
      "elems w v = xs"
    | (heap) xs p cap r where "v = heap_vec E (length xs) p" "heap w p = Some (block cap r xs)"
      "length xs \<le> cap" "SMALL_SIZE E < cap" "0 < r" "elems w v = xs"
proof (cases "is_small v")
  case True
  from valid_small_eq[OF assms True] valid_smallD(1)[OF assms True]
  show ?thesis by (intro small[of "elems w v" "dynamic_data v"]) simp_all
next
  case False
  from assms False obtain p d where p: "dynamic_data v = Some p" "heap w p = Some d" "own v = Some p"
    and d: "sv_size v \<le> ds_capacity d" "SMALL_SIZE E < ds_capacity d" "0 < ds_references d"
           "ds_data d = slots (ds_capacity d) (elems w v)"
    by (rule valid_heapD)
  have "d = block (ds_capacity d) (ds_references d) (elems w v)"
    using d by (simp add: block_def)
  with p d valid_heap_eq[OF assms False p(3)]
  show ?thesis
    by (intro heap[of "elems w v" p "ds_capacity d" "ds_references d"]) simp_all
qed

lemma valid_heap_block:
  assumes "heap w p = Some (block cap r xs)" "length xs \<le> cap" "SMALL_SIZE E < cap" "0 < r"
  shows "valid E w (heap_vec E (length xs) p)" "elems w (heap_vec E (length xs) p) = xs"
  using valid_heap_vec[of w p cap r xs E] assms by (simp_all add: block_def)

lemma moved_to_block:
  "heap (moved_to E w v cap ys c) = (release (heap w) (own v))(next_addr w \<mapsto> block cap 1 ys)"
  by (simp add: block_def)

subsection \<open>Rewriting the elements in place\<close>

definition in_place ::
  "env \<Rightarrow> 'a world \<Rightarrow> 'a socow_vector \<Rightarrow> 'a list \<Rightarrow> nat \<Rightarrow> 'a world \<times> 'a socow_vector" where
  "in_place E w v ys c =
     (if is_small v then (w\<lparr>copies := c\<rparr>, small_vec E ys (dynamic_data v))
      else
        (case deref w (dynamic_data v) of
           None \<Rightarrow> (w, v)
         | Some d \<Rightarrow>
             (w\<lparr>heap := (heap w)(the (dynamic_data v) \<mapsto> block (ds_capacity d) 1 ys), copies := c\<rparr>,
              heap_vec E (length ys) (the (dynamic_data v)))))"

lemma in_place_small [simp]:
  "in_place E w (small_vec E xs dyn) ys c = (w\<lparr>copies := c\<rparr>, small_vec E ys dyn)"
  by (simp add: in_place_def)

lemma in_place_heap:
  "heap w p = Some (block cap r xs) \<Longrightarrow>
     in_place E w (heap_vec E n p) ys c =
       (w\<lparr>heap := (heap w)(p \<mapsto> block cap 1 ys), copies := c\<rparr>, heap_vec E (length ys) p)"
  by (simp add: in_place_def deref_def)

lemma shared_heap_vec:
  "heap w p = Some (block cap r xs) \<Longrightarrow> shared w (heap_vec E n p) \<longleftrightarrow> 1 < r"
  by (simp add: shared_def)

lemma in_place_ok:
  assumes v: "valid E w v" and al: "alloc_ok w" and ex: "\<not> shared w v"
    and c: "capacity E w v = Some cap" and fit: "length ys \<le> cap"
    and r: "in_place E w v ys c = (w', v')"
  shows "step_ok E w v w' v'" and "valid E w' v'" and "elems w' v' = ys"
    and "capacity E w' v' = Some cap" and "is_small v' = is_small v" and "own v' = own v"
    and "\<not> shared w' v'" and "alloc_ok w'" and "next_addr w' = next_addr w" and "copies w' = c"
    and "sv_size v' = length ys"
proof -
  have "step_ok E w v w' v' \<and> valid E w' v' \<and> elems w' v' = ys \<and> capacity E w' v' = Some cap
      \<and> is_small v' = is_small v \<and> own v' = own v \<and> \<not> shared w' v' \<and> alloc_ok w'
      \<and> next_addr w' = next_addr w \<and> copies w' = c \<and> sv_size v' = length ys"
    using v
  proof (cases rule: valid_cases)
    case (small xs dyn)
    with c have cap: "cap = SMALL_SIZE E" by (simp add: capacity_def)
    from small r have w': "w' = w\<lparr>copies := c\<rparr>" and v': "v' = small_vec E ys dyn" by simp_all
    have val: "valid E w' v'" "elems w' v' = ys"
      using valid_small_vec[of ys E w' dyn] fit cap v' by simp_all
    have "step_ok E w v w' v'"
      using al val small w' v' by (intro step_ok_in_place_small) simp_all
    moreover have "alloc_ok w'" using al w' by (simp add: alloc_ok_def)
    ultimately show ?thesis using val w' v' small cap by (simp add: capacity_def)
  next
    case (heap xs p cap' r')
    with c have cap: "cap' = cap" by (simp add: capacity_def deref_def)
    from ex heap have r1: "r' = 1" by (simp add: shared_heap_vec)
    from heap r have w': "w' = w\<lparr>heap := (heap w)(p \<mapsto> block cap 1 ys), copies := c\<rparr>"
      and v': "v' = heap_vec E (length ys) p" by (simp_all add: in_place_heap cap)
    have hp: "heap w' p = Some (block cap 1 ys)" using w' by simp
    have val: "valid E w' v'" "elems w' v' = ys"
      using valid_heap_block[OF hp fit] heap cap v' by simp_all
    have al': "alloc_ok w'"
      using al heap w' by (auto simp: alloc_ok_def dest: alloc_ok_below)
    have "step_ok E w v w' v'"
      using al val heap w' v' r1 cap
      by (intro step_ok_in_place_heap[where p=p and d="block cap 1 xs" and d'="block cap 1 ys"])
         simp_all
    then show ?thesis using val al' w' v' heap hp
      by (simp add: capacity_def deref_def shared_def)
  qed
  then show "step_ok E w v w' v'" and "valid E w' v'" and "elems w' v' = ys"
    and "capacity E w' v' = Some cap" and "is_small v' = is_small v" and "own v' = own v"
    and "\<not> shared w' v'" and "alloc_ok w'" and "next_addr w' = next_addr w" and "copies w' = c"
    and "sv_size v' = length ys"
    by simp_all
qed

lemma in_place_again:
  assumes "valid E w v" and "in_place E w v ys c = (w', v')"
  shows "in_place E w' v' zs c' = in_place E w v zs c'"
  using assms
  by (cases rule: valid_cases) (auto simp: in_place_heap)

subsection \<open>pop_back\<close>

lemma pop_back_in_place:
  assumes v: "valid E w v" and ex: "\<not> shared w v" and pos: "0 < sv_size v"
  shows "pop_back E w v = Done (in_place E w v (butlast (elems w v)) (copies w))"
  using v
proof (cases rule: valid_cases)
  case (small xs dyn)
  with pos have ne: "xs \<noteq> []" by auto
  then have "length xs - Suc 0 < SMALL_SIZE E" using small by (cases xs) auto
  moreover have "length xs - Suc 0 < length xs" using ne by (cases xs) auto
  then have "slots (SMALL_SIZE E) xs ! (length xs - Suc 0) \<noteq> None"
    using small by (simp add: nth_slots)
  moreover have "small_vec E xs dyn\<lparr>static_data := slots (SMALL_SIZE E) (butlast xs),
                    sv_size := length xs - Suc 0\<rparr> = small_vec E (butlast xs) dyn"
    by (simp add: small_vec_def)
  ultimately show ?thesis using small ne slots_update_butlast[of xs "SMALL_SIZE E"]
    by (simp add: pop_back_def copied_def data_mut_def data_const_def store_data_def)
next
  case (heap xs p cap r)
  with pos have ne: "xs \<noteq> []" by auto
  from ex heap have r1: "r = 1" by (simp add: shared_heap_vec)
  have "length xs - Suc 0 < cap" using heap ne by (cases xs) auto
  moreover have "length xs - Suc 0 < length xs" using ne by (cases xs) auto
  then have "slots cap xs ! (length xs - Suc 0) \<noteq> None"
    using heap by (simp add: nth_slots)
  moreover have "(heap_vec E (length xs) p)\<lparr>sv_size := length xs - Suc 0\<rparr> =
       heap_vec E (length (butlast xs)) p"
    by (simp add: heap_vec_def)
  moreover have "w\<lparr>heap := (heap w)(p \<mapsto> block cap (Suc 0) (butlast xs))\<rparr> =
     w\<lparr>heap := (heap w)(p \<mapsto> block cap (Suc 0) (butlast xs)), copies := copies w\<rparr>"
    by simp
  ultimately show ?thesis using heap ne r1 slots_update_butlast[of xs cap]
    by (simp add: pop_back_def copied_def data_mut_def check_cow_def data_const_def
           store_data_def deref_def in_place_heap)
qed

subsection \<open>clear\<close>

lemma pop_back_n_in_place:
  assumes "valid E w v" and "alloc_ok w" and "\<not> shared w v" and "n \<le> sv_size v"
  shows "pop_back_n E w v n = Done (in_place E w v (take (sv_size v - n) (elems w v)) (copies w))"
  using assms
proof (induction n arbitrary: w v)
  case 0
  then obtain c where c: "capacity E w v = Some c" "sv_size v \<le> c"
    by (auto elim: valid_capacity)
  obtain w' v' where r: "in_place E w v (elems w v) (copies w) = (w', v')" by fastforce
  have "w' = w \<and> v' = v"
    using 0(1) r
  proof (cases rule: valid_cases)
    case (small xs dyn)
    with r show ?thesis by auto
  next
    case (heap xs p cap r')
    with 0(3) have "r' = 1" by (simp add: shared_heap_vec)
    with heap r show ?thesis by (auto simp: in_place_heap fun_upd_idem)
  qed
  with r show ?case by simp
next
  case (Suc n)
  from Suc.prems obtain c where c: "capacity E w v = Some c" "sv_size v \<le> c"
    by (auto elim: valid_capacity)
  obtain w1 v1 where r: "in_place E w v (butlast (elems w v)) (copies w) = (w1, v1)" by fastforce
  have pos: "0 < sv_size v" using Suc.prems by simp
  have pb: "pop_back E w v = Done (w1, v1)"
    using pop_back_in_place[OF Suc.prems(1,3) pos] r by simp
  have fit: "length (butlast (elems w v)) \<le> c" using c by simp
  note ip = in_place_ok[OF Suc.prems(1,2,3) c(1) fit r]
  have n: "n \<le> sv_size v1" using ip(11) Suc.prems(4) by simp
  have "pop_back_n E w1 v1 n =
          Done (in_place E w1 v1 (take (sv_size v1 - n) (elems w1 v1)) (copies w1))"
    using ip n by (intro Suc.IH) simp_all
  also have "in_place E w1 v1 (take (sv_size v1 - n) (elems w1 v1)) (copies w1) =
             in_place E w v (take (sv_size v1 - n) (elems w1 v1)) (copies w1)"
    using in_place_again[OF Suc.prems(1) r] .
  also have "take (sv_size v1 - n) (elems w1 v1) = take (sv_size v - Suc n) (elems w v)"
    using ip(3,11) by (simp add: butlast_conv_take min_def)
  finally show ?case using pb ip(10) by simp
qed

lemma clear_shared:
  assumes "valid E w v" and "shared w v"
  shows "clear E w v =
           Done (w\<lparr>heap := release (heap w) (own v)\<rparr>, small_vec E [] (dynamic_data v))"
  using assms(1)
proof (cases rule: valid_cases)
  case (small xs dyn)
  with assms(2) show ?thesis by simp
next
  case (heap xs p cap r)
  with assms(2) have r: "1 < r" by (simp add: shared_heap_vec)
  have "(heap_vec E (length xs) p)\<lparr>static_data := replicate (SMALL_SIZE E) None,
           is_small := True, sv_size := 0\<rparr> = small_vec E [] (Some p)"
    by (simp add: heap_vec_def small_vec_def)
  with heap r dec_references_valid[OF assms(1)] show ?thesis
    by (simp add: clear_def deref_def)
qed

lemma clear_exclusive:
  assumes "valid E w v" and "alloc_ok w" and "\<not> shared w v"
  shows "clear E w v = Done (in_place E w v [] (copies w))"
proof -
  have pn: "pop_back_n E w v (sv_size v) = Done (in_place E w v [] (copies w))"
    using pop_back_n_in_place[OF assms, of "sv_size v"] by simp
  from assms(1) show ?thesis
  proof (cases rule: valid_cases)
    case (small xs dyn)
    with pn show ?thesis by (simp add: clear_def)
  next
    case (heap xs p cap r)
    with assms(3) have "r = 1" by (simp add: shared_heap_vec)
    with heap pn show ?thesis by (simp add: clear_def deref_def)
  qed
qed

lemma contents_same_data:
  assumes "own B = Some p" and "heap w p = Some d" and "heap w' p = Some d'"
    and "ds_data d' = ds_data d"
  shows "contents w' B = contents w B"
  using assms
  by (auto simp: contents_def index_const_def data_const_def deref_def own_def split: if_splits)

lemma valid_same_block:
  assumes "valid E w B" and "own B = Some p" and "heap w p = Some d" and "heap w' p = Some d'"
    and "ds_data d' = ds_data d" and "ds_capacity d' = ds_capacity d" and "0 < ds_references d'"
  shows "valid E w' B"
proof -
  have c: "contents w' B = contents w B" using assms(2,3,4,5) by (rule contents_same_data)
  then have e: "elems w' B = elems w B" by (simp add: elems_def)
  from assms(2) have ns: "\<not> is_small B" "dynamic_data B = Some p"
    by (auto simp: own_def split: if_splits)
  with assms show ?thesis by (simp add: valid_def e deref_def)
qed

subsection \<open>reserve and shrink_to_fit\<close>

text \<open>A call that threw and left the handle and every block as they were.\<close>

definition unchanged ::
  "'a world \<Rightarrow> 'a socow_vector \<Rightarrow> 'a world \<Rightarrow> 'a socow_vector \<Rightarrow> bool" where
  "unchanged w v w' v' =
     (v' = v \<and> heap w' = heap w \<and> next_addr w \<le> next_addr w')"

lemma unchanged_step_ok:
  "valid E w v \<Longrightarrow> alloc_ok w \<Longrightarrow> unchanged w v w' v' \<Longrightarrow> step_ok E w v w' v'"
  by (auto simp: unchanged_def intro: step_ok_unchanged)

lemma unchanged_refl [simp]: "unchanged w v w v"
  by (simp add: unchanged_def)

lemma capacity_heap_vec:
  "heap w p = Some d \<Longrightarrow> capacity E w (heap_vec E n p) = Some (ds_capacity d)"
  by (simp add: capacity_def deref_def)

lemma capacity_small [simp]: "is_small v \<Longrightarrow> capacity E w v = Some (SMALL_SIZE E)"
  by (simp add: capacity_def)

lemma capacity_moved_to [simp]:
  "capacity E (moved_to E w v cap ys c) (heap_vec E n (next_addr w)) = Some cap"
  by (simp add: capacity_def deref_def)

text \<open>What \<^verbatim>\<open>copy_on_write\<close> gives, by outcome.\<close>

lemma copy_on_write_spec:
  assumes v: "valid E w v" and al: "alloc_ok w" and fit: "sv_size v \<le> cap"
    and big: "SMALL_SIZE E < cap" and fits: "fits E cap"
  shows "case copy_on_write E w v cap of
           Done (w', v') \<Rightarrow> step_ok E w v w' v' \<and> elems w' v' = elems w v \<and>
              \<not> is_small v' \<and> capacity E w' v' = Some cap \<and> \<not> shared w' v' \<and>
              own v' = Some (next_addr w)
         | Threw (w', v') \<Rightarrow> unchanged w v w' v' \<and> (\<exists>j. copy_throws E j)
         | Abort \<Rightarrow> False"
proof -
  have l: "length (elems w v) \<le> cap" using fit by simp
  note m = moved_to_ok[OF v al l big, of "copies w + sv_size v"]
  from copy_on_write_cases[OF v al fit fits] show ?thesis
  proof (elim disjE exE conjE)
    assume "copy_on_write E w v cap =
      Done (moved_to E w v cap (elems w v) (copies w + sv_size v),
            heap_vec E (sv_size v) (next_addr w))"
    then show ?thesis using m by (simp add: shared_def)
  next
    fix k assume "copy_throws E (copies w + k)"
      "copy_on_write E w v cap =
         Threw (w\<lparr>next_addr := Suc (next_addr w), copies := copies w + Suc k\<rparr>, v)"
    then show ?thesis by (auto simp: unchanged_def)
  qed
qed

lemma shrink_big_to_small_spec:
  assumes v: "valid E w v" and al: "alloc_ok w" and ns: "\<not> is_small v"
    and fit: "sv_size v \<le> SMALL_SIZE E"
  shows "case shrink_big_to_small E w v of
           Done (w', v') \<Rightarrow> step_ok E w v w' v' \<and> elems w' v' = elems w v \<and> is_small v'
         | Threw (w', v') \<Rightarrow> unchanged w v w' v' \<and> (\<exists>j. copy_throws E j)
         | Abort \<Rightarrow> False"
proof -
  have l: "length (elems w v) \<le> SMALL_SIZE E" using fit by simp
  let ?w' = "w\<lparr>heap := release (heap w) (own v), copies := copies w + sv_size v\<rparr>"
  have s: "step_ok E w v ?w' (small_vec E (elems w v) None)"
    using v al l by (rule inlined_ok) simp_all
  from shrink_big_to_small_cases[OF v ns fit] show ?thesis
  proof (elim disjE exE conjE)
    assume "shrink_big_to_small E w v = Done (?w', small_vec E (elems w v) None)"
    then show ?thesis using s valid_small_vec(2)[OF l] by simp
  next
    fix k assume "copy_throws E (copies w + k)"
      "shrink_big_to_small E w v = Threw (w\<lparr>copies := copies w + Suc k\<rparr>, v)"
    then show ?thesis by (auto simp: unchanged_def)
  qed
qed

lemma reserve_spec:
  assumes v: "valid E w v" and al: "alloc_ok w" and fk: "fits E k"
  shows "case reserve E w v k of
           Done (w', v') \<Rightarrow> step_ok E w v w' v' \<and> elems w' v' = elems w v \<and>
              (\<forall>c. capacity E w' v' = Some c \<longrightarrow> is_small v' \<or> k \<le> c)
         | Threw (w', v') \<Rightarrow> unchanged w v w' v' \<and> (\<exists>j. copy_throws E j)
         | Abort \<Rightarrow> False"
proof -
  have same: "step_ok E w v w v" using v al by (intro step_ok_unchanged) simp_all
  show ?thesis
  proof (cases "k < sv_size v \<or> (is_small v \<and> k \<le> SMALL_SIZE E)")
    case True
    then have "reserve E w v k = Done (w, v)" by (auto simp: reserve_def)
    moreover from v obtain c where "capacity E w v = Some c" "sv_size v \<le> c"
      "is_small v \<longleftrightarrow> c = SMALL_SIZE E" "SMALL_SIZE E \<le> c"
      by (rule valid_capacity)
    ultimately show ?thesis using same True by auto
  next
    case False
    then have k: "sv_size v \<le> k" and nk: "is_small v \<Longrightarrow> SMALL_SIZE E < k" by auto
    from v show ?thesis
    proof (cases rule: valid_cases)
      case (small xs dyn)
      with nk have big: "SMALL_SIZE E < k" by simp
      have "reserve E w v k = copy_on_write E w v k"
        using small big k by (simp add: reserve_def)
      with copy_on_write_spec[OF v al k big fk] show ?thesis
        by (auto split: outcome.splits)
    next
      case (heap xs p cap r)
      show ?thesis
      proof (cases "1 < r")
        case True
        show ?thesis
        proof (cases "k \<le> SMALL_SIZE E")
          case le: True
          have "reserve E w v k = shrink_big_to_small E w v"
            using heap True le k by (simp add: reserve_def deref_def)
          moreover have "sv_size v \<le> SMALL_SIZE E" using k le by simp
          ultimately show ?thesis
            using shrink_big_to_small_spec[OF v al, of] heap
            by (auto split: outcome.splits)
        next
          case gt: False
          have "reserve E w v k = copy_on_write E w v k"
            using heap True gt k by (simp add: reserve_def deref_def)
          with copy_on_write_spec[OF v al k _ fk] gt show ?thesis
            by (auto split: outcome.splits)
        qed
      next
        case False
        with heap have r1: "r = 1" by simp
        show ?thesis
        proof (cases "cap < k")
          case True
          have "reserve E w v k = copy_on_write E w v k"
            using heap r1 True k by (simp add: reserve_def deref_def)
          with copy_on_write_spec[OF v al k _ fk] True heap show ?thesis
            by (auto split: outcome.splits)
        next
          case nb: False
          have "reserve E w v k = Done (w, v)"
            using heap r1 nb k by (simp add: reserve_def deref_def)
          then show ?thesis using same nb heap by (simp add: capacity_heap_vec)
        qed
      qed
    qed
  qed
qed

lemma shrink_to_fit_spec:
  assumes v: "valid E w v" and al: "alloc_ok w" and fs: "fits E (sv_size v)"
  shows "case shrink_to_fit E w v of
           Done (w', v') \<Rightarrow> step_ok E w v w' v' \<and> elems w' v' = elems w v \<and>
              (if sv_size v \<le> SMALL_SIZE E
               then is_small v' \<and> capacity E w' v' = Some (SMALL_SIZE E)
               else capacity E w' v' = Some (sv_size v))
         | Threw (w', v') \<Rightarrow> unchanged w v w' v' \<and> (\<exists>j. copy_throws E j)
         | Abort \<Rightarrow> False"
proof -
  have same: "step_ok E w v w v" using v al by (intro step_ok_unchanged) simp_all
  from v show ?thesis
  proof (cases rule: valid_cases)
    case (small xs dyn)
    then have "shrink_to_fit E w v = Done (w, v)" by (simp add: shrink_to_fit_def)
    then show ?thesis using same small by simp
  next
    case (heap xs p cap r)
    show ?thesis
    proof (cases "length xs = cap")
      case True
      then have "shrink_to_fit E w v = Done (w, v)"
        using heap by (simp add: shrink_to_fit_def capacity_heap_vec)
      then show ?thesis using same heap True by (simp add: capacity_heap_vec)
    next
      case ne: False
      show ?thesis
      proof (cases "length xs \<le> SMALL_SIZE E")
        case True
        have "shrink_to_fit E w v = shrink_big_to_small E w v"
          using heap ne True by (simp add: shrink_to_fit_def capacity_heap_vec)
        with shrink_big_to_small_spec[OF v al] heap True show ?thesis
          by (auto split: outcome.splits)
      next
        case False
        have "shrink_to_fit E w v = copy_on_write E w v (sv_size v)"
          using heap ne False by (simp add: shrink_to_fit_def capacity_heap_vec)
        with copy_on_write_spec[OF v al le_refl _ fs] heap False show ?thesis
          by (auto split: outcome.splits)
      qed
    qed
  qed
qed

lemma step_ok_valid: "step_ok E w v w' v' \<Longrightarrow> valid E w' v'"
  and step_ok_alloc: "step_ok E w v w' v' \<Longrightarrow> alloc_ok w'"
  by (simp_all add: step_ok_def)

subsection \<open>A temporary with a block of its own\<close>

definition with_block :: "'a world \<Rightarrow> nat \<Rightarrow> 'a list \<Rightarrow> nat \<Rightarrow> 'a world" where
  "with_block w cap ys c =
     w\<lparr>heap := (heap w)(next_addr w \<mapsto> block cap 1 ys),
       next_addr := Suc (next_addr w), copies := c\<rparr>"

lemma with_block_sel [simp]:
  "heap (with_block w cap ys c) = (heap w)(next_addr w \<mapsto> block cap 1 ys)"
  "next_addr (with_block w cap ys c) = Suc (next_addr w)"
  "copies (with_block w cap ys c) = c"
  by (simp_all add: with_block_def)

lemma with_block_copies [simp]:
  "(with_block w cap ys c)\<lparr>copies := c'\<rparr> = with_block w cap ys c'"
  by (simp add: with_block_def)

lemma moved_to_new_vector: "moved_to E w (new_vector E) cap ys c = with_block w cap ys c"
  by (simp add: moved_to_def with_block_def own_def new_vector_def block_def)

lemma with_block_valid:
  assumes "length ys \<le> cap" and "SMALL_SIZE E < cap"
  shows "valid E (with_block w cap ys c) (heap_vec E (length ys) (next_addr w))"
    and "elems (with_block w cap ys c) (heap_vec E (length ys) (next_addr w)) = ys"
  using valid_heap_block[of "with_block w cap ys c" "next_addr w" cap 1 ys E] assms by simp_all

lemma with_block_alloc_ok: "alloc_ok w \<Longrightarrow> alloc_ok (with_block w cap ys c)"
  by (auto simp: alloc_ok_def)

lemma with_block_frame:
  assumes "valid E w v" and "alloc_ok w"
  shows "valid E (with_block w cap ys c) v" and "elems (with_block w cap ys c) v = elems w v"
    and "contents (with_block w cap ys c) v = contents w v"
    and "capacity E (with_block w cap ys c) v = capacity E w v"
    and "shared (with_block w cap ys c) v = shared w v"
proof -
  have ne: "\<And>a. own v = Some a \<Longrightarrow> a \<noteq> next_addr w"
    using valid_own_below[OF assms] by auto
  then have fr: "\<And>a. own v = Some a \<Longrightarrow> heap (with_block w cap ys c) a = heap w a" by simp
  show "valid E (with_block w cap ys c) v" using valid_frame[of v _ w E, OF fr] assms by simp
  show "elems (with_block w cap ys c) v = elems w v" using elems_frame[of v _ w, OF fr] by simp
  show "contents (with_block w cap ys c) v = contents w v"
    using contents_frame[of v _ w, OF fr] by simp
  show "capacity E (with_block w cap ys c) v = capacity E w v"
    using ne by (auto simp: capacity_def deref_def own_def split: option.splits)
  show "shared (with_block w cap ys c) v = shared w v"
    using ne by (auto simp: shared_def)
qed

subsection \<open>push_back\<close>

lemma push_back_in_place:
  assumes v: "valid E w v" and ex: "\<not> shared w v" and c: "capacity E w v = Some cap"
    and room: "sv_size v < cap"
  shows "push_back E w v x =
           (if copy_throws E (copies w) then Threw (w\<lparr>copies := Suc (copies w)\<rparr>, v)
            else Done (in_place E w v (elems w v @ [x]) (Suc (copies w))))"
  using v
proof (cases rule: valid_cases)
  case (small xs dyn)
  with c room have lt: "length xs < SMALL_SIZE E" by (simp add: capacity_def)
  have "(small_vec E xs dyn)\<lparr>static_data := slots (SMALL_SIZE E) (xs @ [x]),
          sv_size := Suc (length xs)\<rparr> = small_vec E (xs @ [x]) dyn"
    by (simp add: small_vec_def)
  with small lt slots_update_append[of xs "SMALL_SIZE E" x] show ?thesis
    by (subst push_back.simps)
       (simp add: capacity_def copied_def data_mut_def copy_construct_def data_const_def
          store_data_def)
next
  case (heap xs p cap' r)
  with c have cap: "cap' = cap" by (simp add: capacity_heap_vec)
  from ex heap have r1: "r = 1" by (simp add: shared_heap_vec)
  from room heap have lt: "length xs < cap" by simp
  have "(heap_vec E (length xs) p)\<lparr>sv_size := Suc (length xs)\<rparr> =
          heap_vec E (length (xs @ [x])) p"
    by (simp add: heap_vec_def)
  with heap cap r1 lt slots_update_append[of xs cap x] show ?thesis
    by (subst push_back.simps)
       (simp add: capacity_def copied_def data_mut_def check_cow_def copy_construct_def
          data_const_def store_data_def deref_def in_place_heap)
qed

lemma push_back_tmp:
  assumes "length ys < cap" and "SMALL_SIZE E < cap"
  shows "push_back E (with_block w cap ys c) (heap_vec E (length ys) (next_addr w)) x =
           (if copy_throws E c
            then Threw (with_block w cap ys (Suc c), heap_vec E (length ys) (next_addr w))
            else Done (with_block w cap (ys @ [x]) (Suc c),
                       heap_vec E (Suc (length ys)) (next_addr w)))"
proof -
  let ?w = "with_block w cap ys c" and ?v = "heap_vec E (length ys) (next_addr w)"
  have le: "length ys \<le> cap" using assms by simp
  note val = with_block_valid[OF le assms(2), of w c]
  have h: "heap ?w (next_addr w) = Some (block cap 1 ys)" by simp
  have ns: "\<not> shared ?w ?v" using shared_heap_vec[OF h] by simp
  have cp: "capacity E ?w ?v = Some cap" using capacity_heap_vec[OF h] by simp
  have "in_place E ?w ?v (ys @ [x]) (Suc c) =
          (with_block w cap (ys @ [x]) (Suc c), heap_vec E (Suc (length ys)) (next_addr w))"
    using in_place_heap[OF h] by (simp add: with_block_def)
  with push_back_in_place[OF val(1) ns cp, of x] assms val(2) show ?thesis by simp
qed

lemma unwind_tmp:
  assumes "alloc_ok w" and "length ys \<le> cap" and "SMALL_SIZE E < cap"
  shows "unwind (with_block w cap ys c) (heap_vec E (length ys) (next_addr w)) v =
           Threw (w\<lparr>next_addr := Suc (next_addr w), copies := c\<rparr>, v)"
proof -
  have "(heap w)(next_addr w := None) = heap w"
    using alloc_ok_fresh[OF assms(1)] by (simp add: fun_upd_idem)
  then show ?thesis
    using destructor_valid[OF with_block_valid(1)[OF assms(2,3), of w c]]
    by (simp add: unwind_def release_def with_block_def)
qed

lemma assign_from_heap:
  assumes v: "valid E w v" and o: "\<not> is_small other" "dynamic_data other = Some a"
    and h: "release (heap w) (own v) a = Some d"
  shows "assign E w v other =
           Done (w\<lparr>heap := (release (heap w) (own v))(a \<mapsto>
                     d\<lparr>ds_references := Suc (ds_references d)\<rparr>)\<rparr>,
                 heap_vec E (sv_size other) a)"
proof -
  have "v\<lparr>static_data := replicate (SMALL_SIZE E) None, dynamic_data := Some a,
          is_small := False, sv_size := sv_size other\<rparr> = heap_vec E (sv_size other) a"
    by (simp add: heap_vec_def)
  with o h dec_references_valid[OF v] show ?thesis
    by (subst assign.simps) simp
qed

lemma commit_tmp:
  assumes v: "valid E w v" and al: "alloc_ok w" and fit: "length ys \<le> cap"
    and big: "SMALL_SIZE E < cap"
  shows "assign E (with_block w cap ys c) v (heap_vec E (length ys) (next_addr w)) =
           Done ((moved_to E w v cap ys c)\<lparr>heap :=
                    (heap (moved_to E w v cap ys c))(next_addr w \<mapsto> block cap 2 ys)\<rparr>,
                 heap_vec E (length ys) (next_addr w))"
    and "leave_scope ((moved_to E w v cap ys c)\<lparr>heap :=
                    (heap (moved_to E w v cap ys c))(next_addr w \<mapsto> block cap 2 ys)\<rparr>)
           (heap_vec E (length ys) (next_addr w)) (heap_vec E (length ys) (next_addr w)) =
         Done (moved_to E w v cap ys c, heap_vec E (length ys) (next_addr w))"
proof -
  let ?wt = "with_block w cap ys c" and ?nv = "heap_vec E (length ys) (next_addr w)"
  let ?m = "moved_to E w v cap ys c"
  have ne: "own v \<noteq> Some (next_addr w)" using valid_own_below[OF v al] by auto
  have vt: "valid E ?wt v" using with_block_frame(1)[OF v al] .
  have rel: "release (heap ?wt) (own v) = (release (heap w) (own v))(next_addr w \<mapsto> block cap 1 ys)"
    using ne by (simp add: release_upd_other)
  then have h: "release (heap ?wt) (own v) (next_addr w) = Some (block cap 1 ys)" by simp
  have a1: "assign E ?wt v ?nv =
     Done (?wt\<lparr>heap := (release (heap ?wt) (own v))(next_addr w \<mapsto>
                     (block cap 1 ys)\<lparr>ds_references := Suc (ds_references (block cap 1 ys))\<rparr>)\<rparr>,
           heap_vec E (sv_size ?nv) (next_addr w))"
    using assign_from_heap[OF vt _ _ h, of ?nv] by simp
  have eq: "?wt\<lparr>heap := ((release (heap w) (own v))(next_addr w \<mapsto> block cap 1 ys))
                 (next_addr w \<mapsto>
                     (block cap 1 ys)\<lparr>ds_references := Suc (ds_references (block cap 1 ys))\<rparr>)\<rparr>
            = ?m\<lparr>heap := (heap ?m)(next_addr w \<mapsto> block cap 2 ys)\<rparr>"
    by (simp add: with_block_def moved_to_def block_def numeral_2_eq_2)
  show "assign E ?wt v ?nv =
           Done (?m\<lparr>heap := (heap ?m)(next_addr w \<mapsto> block cap 2 ys)\<rparr>, ?nv)"
    using a1 unfolding rel eq by simp
  let ?w3 = "?m\<lparr>heap := (heap ?m)(next_addr w \<mapsto> block cap 2 ys)\<rparr>"
  have h3: "heap ?w3 (next_addr w) = Some (block cap 2 ys)" by simp
  have "valid E ?w3 ?nv" using valid_heap_block(1)[OF h3 fit big] by simp
  from destructor_valid[OF this]
  show "leave_scope ?w3 ?nv ?nv = Done (?m, ?nv)"
    by (simp add: leave_scope_def release_def moved_to_def block_def numeral_2_eq_2)
qed


lemma in_place_tmp:
  "in_place E (with_block w cap ys c) (heap_vec E n (next_addr w)) zs c' =
     (with_block w cap zs c', heap_vec E (length zs) (next_addr w))"
proof -
  have h: "heap (with_block w cap ys c) (next_addr w) = Some (block cap 1 ys)" by simp
  show ?thesis using in_place_heap[OF h] by (simp add: with_block_def)
qed


subsection \<open>pop_back on a shared block\<close>

lemma pop_back_shared:
  assumes v: "valid E w v" and al: "alloc_ok w" and sh: "shared w v" and pos: "0 < sv_size v"
    and c: "capacity E w v = Some cap" and fits: "fits E cap"
  shows "pop_back E w v =
           Done (moved_to E w v cap (butlast (elems w v)) (copies w + (sv_size v - 1)),
                 heap_vec E (sv_size v - 1) (next_addr w))
         \<or> (\<exists>w'. pop_back E w v = Threw (w', v) \<and> unchanged w v w' v \<and> (\<exists>j. copy_throws E j))"
proof -
  from sh have ns: "\<not> is_small v" by (auto simp: shared_def own_def split: if_splits)
  from v c ns have cap: "sv_size v \<le> cap" "SMALL_SIZE E < cap"
    by (auto elim!: valid_capacity)
  let ?n = "sv_size v - 1" and ?a = "next_addr w" and ?xs = "elems w v"
  have le: "?n \<le> sv_size v" by simp
  have lt: "?n < cap" using cap pos by simp
  have unf: "pop_back E w v =
     (case copy_with_capacity E w v ?n cap of
        Abort \<Rightarrow> Abort
      | Threw w1 \<Rightarrow> Threw (w1, v)
      | Done (w1, nv) \<Rightarrow>
          (case swap_vec E w1 v nv of
             Abort \<Rightarrow> Abort
           | Threw (w2, v2, nv2) \<Rightarrow> unwind w2 nv2 v2
           | Done (w2, v2, nv2) \<Rightarrow> leave_scope w2 nv2 v2))"
    using pos c sh copied_valid[OF v] by (simp add: pop_back_def)
  have fresh: "(heap w)(?a := None) = heap w"
    using alloc_ok_fresh[OF al] by (simp add: fun_upd_idem)
  from v ns obtain p where p: "own v = Some p" "dynamic_data v = Some p"
    and st: "static_data v = replicate (SMALL_SIZE E) None"
    by (auto elim: valid_heapD)
  have veq: "v = heap_vec E (sv_size v) p" using valid_heap_eq[OF v ns p(1)] .
  from copy_with_capacity_cases[OF v le cap(2) lt fits]
  show ?thesis
  proof (elim disjE exE conjE)
    fix k assume k: "copy_throws E (copies w + k)"
      and cw: "copy_with_capacity E w v ?n cap =
                Threw (w\<lparr>heap := (heap w)(?a := None),
                        next_addr := Suc ?a, copies := copies w + Suc k\<rparr>)"
    have "pop_back E w v = Threw (w\<lparr>next_addr := Suc ?a, copies := copies w + Suc k\<rparr>, v)"
      unfolding unf cw by (simp add: fresh)
    with k show ?thesis by (auto simp: unchanged_def)
  next
    assume "copy_with_capacity E w v ?n cap =
           Done (moved_to E w (new_vector E) cap (take ?n ?xs) (copies w + ?n),
                 heap_vec E ?n ?a)"
    then have cw: "copy_with_capacity E w v ?n cap =
           Done (with_block w cap (butlast ?xs) (copies w + ?n), heap_vec E ?n ?a)"
      by (simp add: moved_to_new_vector butlast_conv_take)
    let ?wt = "with_block w cap (butlast ?xs) (copies w + ?n)"
    have sw: "swap_vec E ?wt v (heap_vec E ?n ?a) = Done (?wt, heap_vec E ?n ?a, v)"
    proof -
      have "v\<lparr>dynamic_data := Some ?a, sv_size := ?n, is_small := False\<rparr> = heap_vec E ?n ?a"
        using st by (intro vec_eqI) simp_all
      moreover have "(heap_vec E ?n ?a)\<lparr>dynamic_data := dynamic_data v, sv_size := sv_size v,
            is_small := is_small v\<rparr> = v"
        using ns st p by (intro vec_eqI) simp_all
      ultimately show ?thesis using ns by (subst swap_vec.simps) simp
    qed
    have vt: "valid E ?wt v" using with_block_frame(1)[OF v al] .
    have ne: "own v \<noteq> Some ?a" using valid_own_below[OF v al] by auto
    have "leave_scope ?wt v (heap_vec E ?n ?a) =
            Done (moved_to E w v cap (butlast ?xs) (copies w + ?n), heap_vec E ?n ?a)"
      using destructor_valid[OF vt] ne
      by (simp add: leave_scope_def release_upd_other moved_to_def with_block_def block_def)
    then have "pop_back E w v =
           Done (moved_to E w v cap (butlast ?xs) (copies w + ?n), heap_vec E ?n ?a)"
      unfolding unf cw using sw by simp
    then show ?thesis ..
  qed
qed

lemma pop_back_spec:
  assumes v: "valid E w v" and al: "alloc_ok w" and pos: "0 < sv_size v"
    and fits: "shared w v \<longrightarrow> (\<forall>c. capacity E w v = Some c \<longrightarrow> fits E c)"
  shows "case pop_back E w v of
           Done (w', v') \<Rightarrow> step_ok E w v w' v' \<and> elems w' v' = butlast (elems w v) \<and>
              (\<forall>c. capacity E w v = Some c \<longrightarrow> capacity E w' v' = Some c) \<and>
              \<not> shared w' v' \<and> is_small v' = is_small v
         | Threw (w', v') \<Rightarrow> unchanged w v w' v' \<and> (\<exists>j. copy_throws E j)
         | Abort \<Rightarrow> False"
proof -
  from v obtain cap where c: "capacity E w v = Some cap" and cap: "sv_size v \<le> cap"
    "SMALL_SIZE E \<le> cap" "is_small v \<longleftrightarrow> cap = SMALL_SIZE E"
    by (rule valid_capacity)
  show ?thesis
  proof (cases "shared w v")
    case True
    then have ns: "\<not> is_small v" by (auto simp: shared_def own_def split: if_splits)
    with cap have big: "SMALL_SIZE E < cap" by auto
    have l: "length (butlast (elems w v)) \<le> cap" using cap by simp
    note m = moved_to_ok[OF v al l big, of "copies w + (sv_size v - 1)"]
    from fits True c have "fits E cap" by simp
    from pop_back_shared[OF v al True pos c this] show ?thesis
    proof (elim disjE exE conjE)
      assume "pop_back E w v =
           Done (moved_to E w v cap (butlast (elems w v)) (copies w + (sv_size v - 1)),
                 heap_vec E (sv_size v - 1) (next_addr w))"
      then show ?thesis using m c ns by (simp add: shared_def)
    next
      fix w' j assume "pop_back E w v = Threw (w', v)" "unchanged w v w' v" "copy_throws E j"
      then show ?thesis by auto
    qed
  next
    case False
    obtain w' v' where r: "in_place E w v (butlast (elems w v)) (copies w) = (w', v')"
      by fastforce
    have fit: "length (butlast (elems w v)) \<le> cap" using cap by simp
    note ip = in_place_ok[OF v al False c fit r]
    have "pop_back E w v = Done (w', v')"
      using pop_back_in_place[OF v False pos] r by simp
    then show ?thesis using ip c by simp
  qed
qed

subsection \<open>Appending a range in place\<close>

lemma in_place_id:
  assumes "valid E w v" and "\<not> shared w v"
  shows "in_place E w v (elems w v) c = (w\<lparr>copies := c\<rparr>, v)"
  using assms(1)
proof (cases rule: valid_cases)
  case (small xs dyn)
  then show ?thesis by simp
next
  case (heap xs p cap r)
  with assms(2) have "r = 1" by (simp add: shared_heap_vec)
  with heap show ?thesis by (simp add: in_place_heap fun_upd_idem)
qed

lemma index_const_valid:
  assumes "valid E w s" and "k < sv_size s"
  shows "index_const w s k = Some (elems w s ! k)"
proof -
  from assms(1) obtain c where "data_const w s = Some (slots c (elems w s))" "sv_size s \<le> c"
    by (rule valid_capacity)
  with assms(2) show ?thesis by (simp add: index_const_def nth_slots)
qed

lemma step_ok_frame:
  assumes st: "step_ok E w t w' t'" and s: "valid E w s" and al: "alloc_ok w"
    and ne: "\<forall>a. own s = Some a \<longrightarrow> own t \<noteq> Some a"
  shows "valid E w' s" and "elems w' s = elems w s" and "contents w' s = contents w s"
    and "\<forall>a. own s = Some a \<longrightarrow> own t' \<noteq> Some a"
proof -
  have fr: "\<And>a. own s = Some a \<Longrightarrow> heap w' a = heap w a \<and> own t' \<noteq> Some a"
  proof -
    fix a assume a: "own s = Some a"
    then have "a < next_addr w" using valid_own_below[OF s al] by simp
    moreover have "own t \<noteq> Some a" using ne a by simp
    ultimately show "heap w' a = heap w a \<and> own t' \<noteq> Some a"
      using st by (simp add: step_ok_def)
  qed
  then have h: "\<And>a. own s = Some a \<Longrightarrow> heap w' a = heap w a" by simp
  show "valid E w' s" using valid_frame[of s w' w E, OF h] s by simp
  show "elems w' s = elems w s" using elems_frame[of s w' w, OF h] by simp
  show "contents w' s = contents w s" using contents_frame[of s w' w, OF h] by simp
  show "\<forall>a. own s = Some a \<longrightarrow> own t' \<noteq> Some a" using fr by simp
qed

lemma take_drop_step:
  assumes "i < n" and "n \<le> length zs"
  shows "take (n - i) (drop i zs) = zs ! i # take (n - Suc i) (drop (Suc i) zs)"
proof -
  have "drop i zs = zs ! i # drop (Suc i) zs"
    using assms by (simp add: Cons_nth_drop_Suc)
  moreover have "n - i = Suc (n - Suc i)" using assms by simp
  ultimately show ?thesis by simp
qed

lemma push_back_range_in_place:
  assumes "valid E w t" and "alloc_ok w" and "\<not> shared w t" and "capacity E w t = Some cap"
    and "sv_size t + (n - i) \<le> cap" and "valid E w s" and "n \<le> sv_size s"
    and "\<forall>a. own s = Some a \<longrightarrow> own t \<noteq> Some a" and "elems w s = zs"
  shows "push_back_range E w t s i n =
           Done (in_place E w t (elems w t @ take (n - i) (drop i zs)) (copies w + (n - i)))
         \<or> (\<exists>ys c'. push_back_range E w t s i n = Threw (in_place E w t ys c') \<and>
               length ys \<le> cap \<and> (\<exists>j. copy_throws E j))"
  using assms
proof (induction "n - i" arbitrary: i w t)
  case 0
  then have "push_back_range E w t s i n = Done (w, t)"
    by (subst push_back_range.simps) simp
  then show ?case using 0 in_place_id[OF "0.prems"(1,3), of "copies w"] by simp
next
  case (Suc m)
  then have lt: "i < n" and m: "m = n - Suc i" by simp_all
  note p = Suc.prems
  have room: "sv_size t < cap" using p(5) lt by simp
  have ix: "index_const w s i = Some (zs ! i)"
    using index_const_valid[OF p(6), of i] lt p(7,9) by simp
  have unf: "push_back_range E w t s i n =
     (case push_back E w t (zs ! i) of
        Abort \<Rightarrow> Abort
      | Threw s' \<Rightarrow> Threw s'
      | Done (w', tmp') \<Rightarrow> push_back_range E w' tmp' s (Suc i) n)"
    using lt ix by (subst push_back_range.simps) simp
  note pb = push_back_in_place[OF p(1,3,4) room, of "zs ! i"]
  show ?case
  proof (cases "copy_throws E (copies w)")
    case True
    have "push_back_range E w t s i n = Threw (in_place E w t (elems w t) (Suc (copies w)))"
      unfolding unf using pb True in_place_id[OF p(1,3)] by simp
    moreover have "length (elems w t) \<le> cap" using room by simp
    ultimately show ?thesis using True by blast
  next
    case False
    obtain w1 t1 where r: "in_place E w t (elems w t @ [zs ! i]) (Suc (copies w)) = (w1, t1)"
      by fastforce
    have fit: "length (elems w t @ [zs ! i]) \<le> cap" using room by simp
    note ip = in_place_ok[OF p(1,2,3,4) fit r]
    note fr = step_ok_frame[OF ip(1) p(6) p(2) p(8)]
    have unf1: "push_back_range E w t s i n = push_back_range E w1 t1 s (Suc i) n"
      unfolding unf using pb False r by simp
    have sz: "sv_size t1 + (n - Suc i) \<le> cap" using ip(11) p(5) lt by simp
    have nl: "n \<le> length zs" using p(7) p(9) length_elems[of w s] by simp
    have ne1: "\<forall>a. own s = Some a \<longrightarrow> own t1 \<noteq> Some a" using fr(4) .
    have e1: "elems w1 s = zs" using fr(2) p(9) by simp
    from Suc.hyps(1)[OF m ip(2) ip(8) ip(7) ip(4) sz fr(1) p(7) ne1 e1]
    show ?thesis
    proof (elim disjE exE conjE)
      assume d: "push_back_range E w1 t1 s (Suc i) n =
        Done (in_place E w1 t1 (elems w1 t1 @ take (n - Suc i) (drop (Suc i) zs))
                (copies w1 + (n - Suc i)))"
      have "elems w1 t1 @ take (n - Suc i) (drop (Suc i) zs) =
              elems w t @ take (n - i) (drop i zs)"
        using ip(3) take_drop_step[OF lt nl] by simp
      moreover have "copies w1 + (n - Suc i) = copies w + (n - i)" using ip(10) lt by simp
      ultimately show ?thesis
        unfolding unf1 using d in_place_again[OF p(1) r] by simp
    next
      fix ys c' j
      assume "push_back_range E w1 t1 s (Suc i) n = Threw (in_place E w1 t1 ys c')"
        "length ys \<le> cap" "copy_throws E j"
      then show ?thesis unfolding unf1 using in_place_again[OF p(1) r] by auto
    qed
  qed
qed

subsection \<open>Swapping two elements\<close>

lemma slots_update:
  "i < length xs \<Longrightarrow> length xs \<le> cap \<Longrightarrow> (slots cap xs)[i := Some a] = slots cap (xs[i := a])"
  by (rule slots_eqI) (auto simp: nth_slots nth_list_update)

lemma swap_elems_in_place:
  assumes v: "valid E w v" and ex: "\<not> shared w v" and i: "i < sv_size v" and j: "j < sv_size v"
  shows "swap_elems E w v i j =
           (if swap_copies E \<and> copy_throws E (copies w)
            then Threw (w\<lparr>copies := Suc (copies w)\<rparr>, v)
            else Done (in_place E w v ((elems w v)[i := elems w v ! j, j := elems w v ! i])
                         (if swap_copies E then Suc (copies w) else copies w)))"
proof -
  have dm: "data_mut E w v = Done (w, v)" using v ex by (rule data_mut_exclusive)
  from v show ?thesis
  proof (cases rule: valid_cases)
    case (small xs dyn)
    let ?N = "SMALL_SIZE E"
    have b: "i < length xs" "j < length xs" "i < ?N" "j < ?N" using small i j by simp_all
    have u: "(slots ?N xs)[i := Some (xs ! j), j := Some (xs ! i)] =
               slots ?N (xs[i := xs ! j, j := xs ! i])"
      using b small by (simp add: slots_update)
    have "small_vec E xs dyn\<lparr>static_data := slots ?N (xs[i := xs ! j, j := xs ! i])\<rparr> =
            small_vec E (xs[i := xs ! j, j := xs ! i]) dyn"
      by (simp add: small_vec_def)
    with small b u dm show ?thesis
      by (simp add: swap_elems_def index_mut_def data_const_def nth_slots swap_T_def
            copy_construct_def store_data_def)
  next
    case (heap xs p cap r)
    from ex heap have r1: "r = 1" by (simp add: shared_heap_vec)
    have b: "i < length xs" "j < length xs" "i < cap" "j < cap" using heap i j by simp_all
    have u: "(slots cap xs)[i := Some (xs ! j), j := Some (xs ! i)] =
               slots cap (xs[i := xs ! j, j := xs ! i])"
      using b heap by (simp add: slots_update)
    have l: "length (xs[i := xs ! j, j := xs ! i]) = length xs" by simp
    have hv: "heap_vec E (length xs) p = heap_vec E (length (xs[i := xs ! j, j := xs ! i])) p"
      by simp
    from heap b u dm r1 show ?thesis
      by (simp add: swap_elems_def index_mut_def data_const_def deref_def nth_slots swap_T_def
            copy_construct_def store_data_def in_place_heap)
  qed
qed

subsection \<open>Filling a temporary\<close>

lemma fill_tmp:
  assumes v: "valid E w v" and al: "alloc_ok w" and big: "SMALL_SIZE E < nc"
    and room: "length ys + (n - i) \<le> nc" and n: "n \<le> sv_size v"
  shows "push_back_range E (with_block w nc ys c) (heap_vec E (length ys) (next_addr w)) v i n =
           Done (with_block w nc (ys @ take (n - i) (drop i (elems w v))) (c + (n - i)),
                 heap_vec E (length ys + (n - i)) (next_addr w))
         \<or> (\<exists>ys' c'. push_back_range E (with_block w nc ys c)
                          (heap_vec E (length ys) (next_addr w)) v i n =
                 Threw (with_block w nc ys' c', heap_vec E (length ys') (next_addr w)) \<and>
               length ys' \<le> nc \<and> (\<exists>j. copy_throws E j))"
proof -
  let ?wt = "with_block w nc ys c" and ?t = "heap_vec E (length ys) (next_addr w)"
  have le: "length ys \<le> nc" using room by simp
  note tv = with_block_valid[OF le big, of w c]
  note fr = with_block_frame[OF v al, of nc ys c]
  have h: "heap ?wt (next_addr w) = Some (block nc 1 ys)" by simp
  have ns: "\<not> shared ?wt ?t" using shared_heap_vec[OF h] by simp
  have cp: "capacity E ?wt ?t = Some nc" using capacity_heap_vec[OF h] by simp
  have ne: "\<forall>a. own v = Some a \<longrightarrow> own ?t \<noteq> Some a"
    using valid_own_below[OF v al] by auto
  have sz: "sv_size ?t + (n - i) \<le> nc" using room by simp
  have len: "length (ys @ take (n - i) (drop i (elems w v))) = length ys + (n - i)"
    using n by simp
  from push_back_range_in_place[OF tv(1) with_block_alloc_ok[OF al] ns cp sz fr(1) n ne fr(2)]
  show ?thesis
    unfolding tv(2) in_place_tmp len[symmetric] by simp
qed

lemma reserve_new_vector:
  fixes w :: "'a world"
  assumes al: "alloc_ok w" and big: "SMALL_SIZE E < nc" and fits: "fits E nc"
  shows "reserve E w (new_vector E) nc =
           Done (with_block w nc [] (copies w), heap_vec E 0 (next_addr w))"
proof -
  let ?nv = "new_vector E :: 'a socow_vector"
  have v0: "valid E w ?nv" by (rule valid_new_vector)
  have s0: "sv_size ?nv = 0" by (simp add: new_vector_def)
  have "reserve E w ?nv nc = copy_on_write E w ?nv nc"
    using big by (simp add: reserve_def new_vector_small_vec)
  moreover have f: "sv_size ?nv \<le> nc" by (simp add: new_vector_def)
  from copy_on_write_cases[OF v0 al f fits]
  have "copy_on_write E w ?nv nc =
          Done (moved_to E w ?nv nc (elems w ?nv) (copies w), heap_vec E 0 (next_addr w))"
    unfolding s0 by simp
  ultimately show ?thesis by (simp add: elems_new_vector moved_to_new_vector)
qed

subsection \<open>Moving the appended element down\<close>

fun bubble :: "'a list \<Rightarrow> nat \<Rightarrow> nat \<Rightarrow> 'a list" where
  "bubble xs diff 0 = xs"
| "bubble xs diff (Suc j) =
     (if Suc j > diff then bubble (xs[Suc j := xs ! j, j := xs ! Suc j]) diff j else xs)"

lemma length_bubble [simp]: "length (bubble xs diff j) = length xs"
  by (induction xs diff j rule: bubble.induct) simp_all

lemma bubble_middle:
  "bubble (as @ bs @ x # cs) (length as) (length as + length bs) = as @ x # bs @ cs"
proof (induction bs arbitrary: cs rule: rev_induct)
  case Nil
  show ?case by (cases "length as") simp_all
next
  case (snoc b bs)
  let ?j = "length as + length bs"
  let ?xs = "as @ (bs @ [b]) @ x # cs"
  have a: "?xs ! ?j = b" by (simp add: nth_append)
  have b: "?xs ! Suc ?j = x" by (simp add: nth_append)
  have u: "?xs[Suc ?j := b, ?j := x] = as @ bs @ x # (b # cs)"
    by (simp add: list_update_append)
  have "bubble ?xs (length as) (length as + length (bs @ [b])) =
          bubble (?xs[Suc ?j := ?xs ! ?j, ?j := ?xs ! Suc ?j]) (length as) ?j"
    by simp
  also have "\<dots> = bubble (as @ bs @ x # (b # cs)) (length as) ?j"
    unfolding a b u ..
  also have "\<dots> = as @ x # bs @ (b # cs)" by (rule snoc.IH)
  finally show ?case by simp
qed

lemma bubble_append:
  assumes "diff \<le> length ys"
  shows "bubble (ys @ [x]) diff (length ys) = take diff ys @ x # drop diff ys"
proof -
  define as bs where "as = take diff ys" and "bs = drop diff ys"
  have ys: "ys = as @ bs" and la: "length as = diff"
    using assms by (simp_all add: as_def bs_def)
  have "bubble (as @ bs @ x # []) (length as) (length as + length bs) = as @ x # bs @ []"
    by (rule bubble_middle)
  then have "bubble (ys @ [x]) diff (length ys) = as @ x # bs"
    by (simp add: ys la)
  then show ?thesis by (simp add: as_def bs_def)
qed

lemma insert_shift_in_place:
  assumes "valid E w v" and "alloc_ok w" and "\<not> shared w v" and "capacity E w v = Some cap"
    and "j < sv_size v \<or> j = 0"
  shows "(\<exists>c'. insert_shift E w v diff j = Done (in_place E w v (bubble (elems w v) diff j) c'))
         \<or> (\<exists>ys c'. insert_shift E w v diff j = Threw (in_place E w v ys c') \<and>
               length ys = sv_size v \<and> (\<exists>k. copy_throws E k))"
  using assms
proof (induction j arbitrary: w v)
  case 0
  have "insert_shift E w v diff 0 = Done (in_place E w v (bubble (elems w v) diff 0) (copies w))"
    using in_place_id[OF "0.prems"(1,3), of "copies w"] by simp
  then show ?case by blast
next
  case (Suc j)
  note p = Suc.prems
  have j: "Suc j < sv_size v" "j < sv_size v" using p(5) by auto
  show ?case
  proof (cases "Suc j > diff")
    case False
    then have "insert_shift E w v diff (Suc j) =
        Done (in_place E w v (bubble (elems w v) diff (Suc j)) (copies w))"
      using in_place_id[OF p(1,3), of "copies w"] by simp
    then show ?thesis by blast
  next
    case True
    let ?xs = "elems w v"
    let ?ys = "?xs[Suc j := ?xs ! j, j := ?xs ! Suc j]"
    let ?c = "if swap_copies E then Suc (copies w) else copies w"
    note se = swap_elems_in_place[OF p(1,3) j]
    show ?thesis
    proof (cases "swap_copies E \<and> copy_throws E (copies w)")
      case thr: True
      have "insert_shift E w v diff (Suc j) =
              Threw (in_place E w v ?xs (Suc (copies w)))"
        using True se thr in_place_id[OF p(1,3)] by simp
      moreover have "length ?xs = sv_size v" by simp
      ultimately show ?thesis using thr by blast
    next
      case nt: False
      obtain w1 v1 where r: "in_place E w v ?ys ?c = (w1, v1)" by fastforce
      from p(1,4) have "sv_size v \<le> cap" by (auto elim!: valid_capacity)
      then have fit: "length ?ys \<le> cap" by simp
      note ip = in_place_ok[OF p(1,2,3,4) fit r]
      have unf: "insert_shift E w v diff (Suc j) = insert_shift E w1 v1 diff j"
        using True se nt r by simp
      have j1: "j < sv_size v1 \<or> j = 0" using ip(11) j by simp
      have bb: "bubble ?xs diff (Suc j) = bubble ?ys diff j" using True by simp
      from Suc.IH[OF ip(2) ip(8) ip(7) ip(4) j1]
      show ?thesis
        unfolding unf ip(3) bb in_place_again[OF p(1) r] using ip(11) by simp
    qed
  qed
qed

subsection \<open>insert\<close>

text \<open>The block of \<^verbatim>\<open>insert\<close> that builds the new vector, for a requested capacity \<open>nc\<close>.\<close>

definition insert_build ::
  "env \<Rightarrow> 'a world \<Rightarrow> 'a socow_vector \<Rightarrow> nat \<Rightarrow> 'a \<Rightarrow> nat \<Rightarrow> 'a vres" where
  "insert_build E w v diff x nc =
     (case reserve E w (new_vector E) nc of
        Abort \<Rightarrow> Abort
      | Threw (w1, nv1) \<Rightarrow> unwind w1 nv1 v
      | Done (w1, nv1) \<Rightarrow>
          (case push_back_range E w1 nv1 v 0 diff of
             Abort \<Rightarrow> Abort
           | Threw (w2, nv2) \<Rightarrow> unwind w2 nv2 v
           | Done (w2, nv2) \<Rightarrow>
               (case push_back E w2 nv2 x of
                  Abort \<Rightarrow> Abort
                | Threw (w3, nv3) \<Rightarrow> unwind w3 nv3 v
                | Done (w3, nv3) \<Rightarrow>
                    (case push_back_range E w3 nv3 v diff (sv_size v) of
                       Abort \<Rightarrow> Abort
                     | Threw (w4, nv4) \<Rightarrow> unwind w4 nv4 v
                     | Done (w4, nv4) \<Rightarrow>
                         (case assign E w4 v nv4 of
                            Abort \<Rightarrow> Abort
                          | Threw (w5, v5) \<Rightarrow> unwind w5 nv4 v5
                          | Done (w5, v5) \<Rightarrow> leave_scope w5 nv4 v5)))))"

lemma insert_vec_unfold:
  "insert_vec E w v diff x =
     (case capacity E w v of
        None \<Rightarrow> Abort
      | Some c \<Rightarrow>
          (case copied w v of
             None \<Rightarrow> Abort
           | Some cp \<Rightarrow>
               (case (if sv_size v = c \<or> cp then
                        insert_build E w v diff x
                          (if cp then size_t (c + 1) else size_t (2 * c))
                      else
                        (case push_back E w v x of
                           Abort \<Rightarrow> Abort
                         | Threw s \<Rightarrow> Threw s
                         | Done (w1, v1) \<Rightarrow> insert_shift E w1 v1 diff (sv_size v1 - 1))) of
                  Abort \<Rightarrow> Abort
                | Threw s \<Rightarrow> Threw s
                | Done (w', v') \<Rightarrow> data_mut E w' v')))"
  unfolding insert_vec_def insert_build_def ..

lemma commit_tmp_case:
  assumes v: "valid E w v" and al: "alloc_ok w" and len: "length ys = n" and fit: "n \<le> cap"
    and big: "SMALL_SIZE E < cap"
  shows "(case assign E (with_block w cap ys c) v (heap_vec E n (next_addr w)) of
            Abort \<Rightarrow> Abort
          | Threw (w5, v5) \<Rightarrow> unwind w5 (heap_vec E n (next_addr w)) v5
          | Done (w5, v5) \<Rightarrow> leave_scope w5 (heap_vec E n (next_addr w)) v5) =
         Done (moved_to E w v cap ys c, heap_vec E n (next_addr w))"
proof -
  have f: "length ys \<le> cap" using len fit by simp
  note ct = commit_tmp[OF v al f big, of c, unfolded len]
  show ?thesis by (simp only: ct(1) outcome.case prod.case ct(2))
qed

lemma insert_build_result:
  assumes v: "valid E w v" and al: "alloc_ok w" and big: "SMALL_SIZE E < nc"
    and room: "Suc (sv_size v) \<le> nc" and d: "diff \<le> sv_size v" and fits: "fits E nc"
  shows "(\<exists>c'. insert_build E w v diff x nc =
            Done (moved_to E w v nc (take diff (elems w v) @ x # drop diff (elems w v)) c',
                  heap_vec E (Suc (sv_size v)) (next_addr w)))
         \<or> (\<exists>c'. insert_build E w v diff x nc =
               Threw (w\<lparr>next_addr := Suc (next_addr w), copies := c'\<rparr>, v) \<and>
               (\<exists>j. copy_throws E j))"
proof -
  let ?a = "next_addr w" and ?xs = "elems w v" and ?n = "sv_size v"
  let ?p1 = "take diff ?xs"
  have lp1: "length ?p1 = diff" using d by simp
  have r0: "reserve E w (new_vector E) nc =
              Done (with_block w nc [] (copies w), heap_vec E 0 ?a)"
    using al big fits by (rule reserve_new_vector)
  have thr: "\<And>ys c. length ys \<le> nc \<Longrightarrow>
      unwind (with_block w nc ys c) (heap_vec E (length ys) ?a) v =
        Threw (w\<lparr>next_addr := Suc ?a, copies := c\<rparr>, v)"
    using unwind_tmp[OF al _ big] by simp
  have room1: "length ([]::'a list) + (diff - 0) \<le> nc" using room d by simp
  from fill_tmp[OF v al big room1 d, of "copies w"]
  consider (D1) "push_back_range E (with_block w nc [] (copies w)) (heap_vec E 0 ?a) v 0 diff =
                   Done (with_block w nc ?p1 (copies w + diff), heap_vec E diff ?a)"
    | (T1) ys c' where
        "push_back_range E (with_block w nc [] (copies w)) (heap_vec E 0 ?a) v 0 diff =
           Threw (with_block w nc ys c', heap_vec E (length ys) ?a)"
        "length ys \<le> nc" "\<exists>j. copy_throws E j"
    by auto
  then show ?thesis
  proof cases
    case T1
    then have "insert_build E w v diff x nc =
                 Threw (w\<lparr>next_addr := Suc ?a, copies := c'\<rparr>, v)"
      by (simp add: insert_build_def r0 thr)
    with T1(3) show ?thesis by blast
  next
    case D1
    let ?c1 = "copies w + diff"
    have l1: "length ?p1 < nc" using lp1 room d by simp
    have pt: "push_back E (with_block w nc ?p1 ?c1) (heap_vec E diff ?a) x =
           (if copy_throws E ?c1
            then Threw (with_block w nc ?p1 (Suc ?c1), heap_vec E diff ?a)
            else Done (with_block w nc (?p1 @ [x]) (Suc ?c1), heap_vec E (Suc diff) ?a))"
      using push_back_tmp[OF l1 big, of w ?c1 x] lp1 by simp
    show ?thesis
    proof (cases "copy_throws E ?c1")
      case True
      have "length ?p1 \<le> nc" using l1 by simp
      from thr[OF this, of "Suc ?c1"]
      have thr1: "unwind (with_block w nc ?p1 (Suc ?c1)) (heap_vec E diff ?a) v =
                    Threw (w\<lparr>next_addr := Suc ?a, copies := Suc ?c1\<rparr>, v)"
        unfolding lp1 .
      have "insert_build E w v diff x nc =
                 Threw (w\<lparr>next_addr := Suc ?a, copies := Suc ?c1\<rparr>, v)"
        using True by (simp add: insert_build_def r0 D1 pt thr1)
      with True show ?thesis by blast
    next
      case False
      let ?p2 = "?p1 @ [x]"
      have lp2: "length ?p2 = Suc diff" using lp1 by simp
      have room3: "length ?p2 + (?n - diff) \<le> nc" using lp2 room d by simp
      have fin: "?p2 @ take (?n - diff) (drop diff ?xs) = ?p1 @ x # drop diff ?xs" by simp
      from fill_tmp[OF v al big room3 le_refl, of "Suc ?c1"]
      consider (D3) "push_back_range E (with_block w nc ?p2 (Suc ?c1)) (heap_vec E (Suc diff) ?a)
                       v diff ?n =
                   Done (with_block w nc (?p1 @ x # drop diff ?xs)
                           (Suc (copies w + diff + (?n - diff))),
                         heap_vec E (Suc ?n) ?a)"
        | (T3) ys c' where
            "push_back_range E (with_block w nc ?p2 (Suc ?c1)) (heap_vec E (Suc diff) ?a)
                       v diff ?n =
               Threw (with_block w nc ys c', heap_vec E (length ys) ?a)"
            "length ys \<le> nc" "\<exists>j. copy_throws E j"
        unfolding lp2 fin using d by auto
      then show ?thesis
      proof cases
        case T3
        then have "insert_build E w v diff x nc =
                 Threw (w\<lparr>next_addr := Suc ?a, copies := c'\<rparr>, v)"
          using False by (simp add: insert_build_def r0 D1 pt thr)
        with T3(3) show ?thesis by blast
      next
        case D3
        let ?fin = "?p1 @ x # drop diff ?xs" and ?c3 = "Suc (copies w + diff + (?n - diff))"
        have lf: "length ?fin = Suc ?n" using d by simp
        then have fit: "length ?fin \<le> nc" using room by simp
        have fit': "Suc ?n \<le> nc" using room .
        note ct = commit_tmp_case[OF v al lf fit' big, of ?c3]
        have "insert_build E w v diff x nc =
                Done (moved_to E w v nc ?fin ?c3, heap_vec E (Suc ?n) ?a)"
          using False by (simp add: insert_build_def r0 D1 pt D3 ct)
        then show ?thesis by blast
      qed
    qed
  qed
qed

lemma insert_spec:
  assumes v: "valid E w v" and al: "alloc_ok w"
    and c: "capacity E w v = Some cap" and d: "diff \<le> sv_size v"
    and re: "sv_size v = cap \<or> shared w v \<longrightarrow>
               0 < cap \<and> fits E (if shared w v then cap + 1 else 2 * cap)"
  shows "case insert_vec E w v diff x of
           Done (w', v') \<Rightarrow> step_ok E w v w' v' \<and>
             elems w' v' = take diff (elems w v) @ x # drop diff (elems w v) \<and>
             (if sv_size v = cap \<or> shared w v then
                \<not> is_small v' \<and> own v' = Some (next_addr w) \<and> \<not> shared w' v' \<and>
                capacity E w' v' = Some (if shared w v then cap + 1 else 2 * cap)
              else
                is_small v' = is_small v \<and> own v' = own v \<and> capacity E w' v' = Some cap \<and>
                next_addr w' = next_addr w)
         | Threw (w', v') \<Rightarrow> step_ok E w v w' v' \<and> (\<exists>j. copy_throws E j) \<and>
             (sv_size v = cap \<or> shared w v \<longrightarrow> unchanged w v w' v')
         | Abort \<Rightarrow> False"
proof (cases "sv_size v = cap \<or> shared w v")
  case True
  let ?nc = "if shared w v then cap + 1 else 2 * cap"
  let ?fin = "take diff (elems w v) @ x # drop diff (elems w v)"
  from True re have pos: "0 < cap" and fits: "fits E ?nc" by simp_all
  have st: "shared w v \<Longrightarrow> size_t (Suc cap) = Suc cap"
    "\<not> shared w v \<Longrightarrow> size_t (2 * cap) = 2 * cap"
    using fits size_t_fits[of E "Suc cap"] size_t_fits[of E "2 * cap"] by simp_all
  from v c have cap: "sv_size v \<le> cap" "SMALL_SIZE E \<le> cap"
    "is_small v \<longleftrightarrow> cap = SMALL_SIZE E"
    by (auto elim!: valid_capacity)
  have big: "SMALL_SIZE E < ?nc"
  proof (cases "shared w v")
    case sh: True
    then have "\<not> is_small v" by (auto simp: shared_def own_def split: if_splits)
    with cap sh show ?thesis by auto
  next
    case False
    with cap pos show ?thesis by simp
  qed
  have room: "Suc (sv_size v) \<le> ?nc" using cap pos by auto
  have unf: "insert_vec E w v diff x =
      (case insert_build E w v diff x ?nc of
         Abort \<Rightarrow> Abort
       | Threw s \<Rightarrow> Threw s
       | Done (w', v') \<Rightarrow> data_mut E w' v')"
    using True c copied_valid[OF v] by (auto simp: insert_vec_unfold st)
  have lf: "length ?fin = Suc (sv_size v)" using d by simp
  then have fit: "length ?fin \<le> ?nc" using room by simp
  from insert_build_result[OF v al big room d fits, of x] show ?thesis
  proof (elim disjE exE conjE)
    fix c' assume ib: "insert_build E w v diff x ?nc =
        Done (moved_to E w v ?nc ?fin c', heap_vec E (Suc (sv_size v)) (next_addr w))"
    note m = moved_to_ok[OF v al fit big, of c', unfolded lf]
    have h: "heap (moved_to E w v ?nc ?fin c') (next_addr w) = Some (block ?nc 1 ?fin)"
      by (simp add: block_def)
    have ns: "\<not> shared (moved_to E w v ?nc ?fin c') (heap_vec E (Suc (sv_size v)) (next_addr w))"
      using shared_heap_vec[OF h] by simp
    have "insert_vec E w v diff x =
            Done (moved_to E w v ?nc ?fin c', heap_vec E (Suc (sv_size v)) (next_addr w))"
      unfolding unf ib using data_mut_exclusive[OF m(3) ns] by simp
    then show ?thesis using m True ns capacity_heap_vec[OF h, of E] by simp
  next
    fix c' j assume ib: "insert_build E w v diff x ?nc =
        Threw (w\<lparr>next_addr := Suc (next_addr w), copies := c'\<rparr>, v)" and j: "copy_throws E j"
    have u: "unchanged w v (w\<lparr>next_addr := Suc (next_addr w), copies := c'\<rparr>) v"
      by (simp add: unchanged_def)
    have "insert_vec E w v diff x =
            Threw (w\<lparr>next_addr := Suc (next_addr w), copies := c'\<rparr>, v)"
      unfolding unf ib by simp
    then show ?thesis using u unchanged_step_ok[OF v al u] j by auto
  qed
next
  case False
  let ?xs = "elems w v" and ?n = "sv_size v"
  let ?fin = "take diff ?xs @ x # drop diff ?xs"
  from v c have cap: "?n \<le> cap" by (auto elim!: valid_capacity)
  with False have room: "?n < cap" and ns: "\<not> shared w v" by simp_all
  have unf: "insert_vec E w v diff x =
      (case (case push_back E w v x of
               Abort \<Rightarrow> Abort
             | Threw s \<Rightarrow> Threw s
             | Done (w1, v1) \<Rightarrow> insert_shift E w1 v1 diff (sv_size v1 - 1)) of
         Abort \<Rightarrow> Abort
       | Threw s \<Rightarrow> Threw s
       | Done (w', v') \<Rightarrow> data_mut E w' v')"
    using False c copied_valid[OF v] by (auto simp: insert_vec_unfold)
  note pb = push_back_in_place[OF v ns c room, of x]
  have same: "step_ok E w v (w\<lparr>copies := Suc (copies w)\<rparr>) v"
    using v al by (intro step_ok_unchanged) simp_all
  show ?thesis
  proof (cases "copy_throws E (copies w)")
    case True
    then have "insert_vec E w v diff x = Threw (w\<lparr>copies := Suc (copies w)\<rparr>, v)"
      unfolding unf using pb by simp
    then show ?thesis using same True False by auto
  next
    case nt: False
    obtain w1 v1 where r1: "in_place E w v (?xs @ [x]) (Suc (copies w)) = (w1, v1)"
      by fastforce
    have fit1: "length (?xs @ [x]) \<le> cap" using room by simp
    note ip1 = in_place_ok[OF v al ns c fit1 r1]
    have pb1: "push_back E w v x = Done (w1, v1)" using pb nt r1 by simp
    have j: "?n < sv_size v1 \<or> ?n = 0" using ip1(11) by simp
    have bb: "bubble (?xs @ [x]) diff ?n = ?fin"
      using bubble_append[of diff ?xs x] d by simp
    have unf1: "insert_vec E w v diff x =
      (case insert_shift E w1 v1 diff ?n of
         Abort \<Rightarrow> Abort
       | Threw s \<Rightarrow> Threw s
       | Done (w', v') \<Rightarrow> data_mut E w' v')"
      unfolding unf pb1 using ip1(11) by simp
    from insert_shift_in_place[OF ip1(2) ip1(8) ip1(7) ip1(4) j, of diff]
    show ?thesis
    proof (elim disjE exE conjE)
      fix c' assume "insert_shift E w1 v1 diff ?n =
          Done (in_place E w1 v1 (bubble (elems w1 v1) diff ?n) c')"
      then have ish: "insert_shift E w1 v1 diff ?n = Done (in_place E w v ?fin c')"
        using in_place_again[OF v r1] ip1(3) bb by simp
      obtain w2 v2 where r2: "in_place E w v ?fin c' = (w2, v2)" by fastforce
      have fit2: "length ?fin \<le> cap" using room d by simp
      note ip2 = in_place_ok[OF v al ns c fit2 r2]
      have "insert_vec E w v diff x = Done (w2, v2)"
        unfolding unf1 ish r2 using data_mut_exclusive[OF ip2(2) ip2(7)] by simp
      then show ?thesis using ip2 False by simp
    next
      fix ys c' k assume "insert_shift E w1 v1 diff ?n = Threw (in_place E w1 v1 ys c')"
        and ly: "length ys = sv_size v1" and k: "copy_throws E k"
      then have ish: "insert_shift E w1 v1 diff ?n = Threw (in_place E w v ys c')"
        using in_place_again[OF v r1] by simp
      obtain w2 v2 where r2: "in_place E w v ys c' = (w2, v2)" by fastforce
      have fit2: "length ys \<le> cap" using ly ip1(11) room by simp
      note ip2 = in_place_ok[OF v al ns c fit2 r2]
      have "insert_vec E w v diff x = Threw (w2, v2)"
        unfolding unf1 ish r2 by simp
      then show ?thesis using ip2(1) k False by auto
    qed
  qed
qed

subsection \<open>Copy assignment\<close>

lemma assign_heap_from_inline:
  assumes v: "valid E w v" and ns: "\<not> is_small v" and o: "valid E w other" "is_small other"
  shows "assign E w v other =
           Done (w\<lparr>heap := release (heap w) (own v), copies := copies w + sv_size other\<rparr>,
                 small_vec E (elems w other) None)
         \<or> (\<exists>k<sv_size other. copy_throws E (copies w + k) \<and>
              assign E w v other = Threw (w\<lparr>copies := copies w + Suc k\<rparr>, v))"
proof -
  from v ns obtain p d where p: "dynamic_data v = Some p" "heap w p = Some d" "own v = Some p"
    and st: "static_data v = replicate (SMALL_SIZE E) None"
    and d: "0 < ds_references d"
    by (rule valid_heapD)
  note od = valid_smallD[OF o]
  have src: "\<And>k. k < sv_size other \<Longrightarrow>
      k < length (static_data other) \<and> static_data other ! k = Some (elems w other ! k)"
    using od by (simp add: nth_slots)
  have len: "length (elems w other) = sv_size other" by simp
  from uninitialized_copy_n_raw[of "sv_size other" "static_data other" "elems w other"
         "SMALL_SIZE E" E w, OF src len od(1)]
  show ?thesis
  proof
    assume u: "uninitialized_copy_n E w (static_data other) (sv_size other)
        (replicate (SMALL_SIZE E) None) 0 =
      Done (w\<lparr>copies := copies w + sv_size other\<rparr>, slots (SMALL_SIZE E) (elems w other))"
    have "assign E w v other =
           Done (w\<lparr>heap := release (heap w) (own v), copies := copies w + sv_size other\<rparr>,
                 small_vec E (elems w other) None)"
      using p st d u ns o(2)
      by (subst assign.simps)
         (auto simp: deref_def dec_references_at_def release_def small_vec_def Let_def)
    then show ?thesis ..
  next
    assume "\<exists>k<sv_size other. copy_throws E (copies w + k) \<and>
      uninitialized_copy_n E w (static_data other) (sv_size other)
          (replicate (SMALL_SIZE E) None) 0 =
        Threw (w\<lparr>copies := copies w + Suc k\<rparr>, replicate (SMALL_SIZE E) None)"
    then obtain k where k: "k < sv_size other" "copy_throws E (copies w + k)"
      and u: "uninitialized_copy_n E w (static_data other) (sv_size other)
          (replicate (SMALL_SIZE E) None) 0 =
        Threw (w\<lparr>copies := copies w + Suc k\<rparr>, replicate (SMALL_SIZE E) None)"
      by auto
    have "v\<lparr>dynamic_data := None, static_data := replicate (SMALL_SIZE E) None,
            dynamic_data := Some p\<rparr> = v"
      using p st by (intro vec_eqI) simp_all
    then have "assign E w v other = Threw (w\<lparr>copies := copies w + Suc k\<rparr>, v)"
      using p st u ns o(2) by (subst assign.simps) (simp add: Let_def)
    with k show ?thesis by auto
  qed
qed

lemma assign_from_heap_no_throw:
  assumes "\<not> is_small other"
  shows "assign E w v other \<noteq> Threw s"
  using assms
  by (subst assign.simps)
     (auto simp: dec_references_def Let_def split: outcome.splits option.splits prod.splits)

lemma assign_from_heap_valid:
  assumes v: "valid E w v" and o: "valid E w other" "\<not> is_small other"
    and two: "own v = own other \<longrightarrow> shared w v"
  shows "\<exists>w'. assign E w v other = Done (w', other)"
proof -
  from o obtain a d where a: "dynamic_data other = Some a" "heap w a = Some d" "own other = Some a"
    by (rule valid_heapD)
  have "\<exists>d'. release (heap w) (own v) a = Some d'"
  proof (cases "own v = Some a")
    case True
    with two a have "shared w v" by simp
    with True a show ?thesis by (auto simp: shared_def release_def)
  next
    case False
    then show ?thesis using a by (simp add: release_other)
  qed
  then obtain d' where d': "release (heap w) (own v) a = Some d'" ..
  have "heap_vec E (sv_size other) a = other"
    using valid_heap_eq[OF o a(3)] by simp
  with assign_from_heap[OF v o(2) a(1) d'] show ?thesis by auto
qed


section \<open>The capacity of heap blocks\<close>

text \<open>
  \<open>caps_ok E w\<close>: every block of the store records a capacity above the inline capacity.
  \<open>keeps E r\<close>: the call with outcome \<open>r\<close>, if it returned or threw, left such a store.
\<close>

definition caps_ok :: "env \<Rightarrow> 'a world \<Rightarrow> bool" where
  "caps_ok E w = (\<forall>a d. heap w a = Some d \<longrightarrow> SMALL_SIZE E < ds_capacity d)"

definition keeps :: "env \<Rightarrow> ('a world \<times> 'b, 'a world \<times> 'c) outcome \<Rightarrow> bool" where
  "keeps E r =
     (case r of
        Done (w', _) \<Rightarrow> caps_ok E w'
      | Threw (w', _) \<Rightarrow> caps_ok E w'
      | Abort \<Rightarrow> True)"

lemma keeps_simps [simp]:
  "keeps E (Done (w, x)) = caps_ok E w" "keeps E (Threw (w, y)) = caps_ok E w" "keeps E Abort"
  by (simp_all add: keeps_def)

lemma keeps_DoneD: "keeps E r \<Longrightarrow> r = Done (w', x) \<Longrightarrow> caps_ok E w'"
  and keeps_ThrewD: "keeps E r \<Longrightarrow> r = Threw (w', y) \<Longrightarrow> caps_ok E w'"
  by simp_all

lemma keeps_bind:
  assumes "keeps E r"
    and "\<And>w1 v1. r = Done (w1, v1) \<Longrightarrow> caps_ok E w1 \<Longrightarrow> keeps E (k w1 v1)"
  shows "keeps E (case r of Abort \<Rightarrow> Abort | Threw s \<Rightarrow> Threw s | Done (w1, v1) \<Rightarrow> k w1 v1)"
  using assms by (cases r) auto

lemma caps_ok_heapI: "caps_ok E w \<Longrightarrow> heap w' = heap w \<Longrightarrow> caps_ok E w'"
  by (simp add: caps_ok_def)

lemma caps_ok_upd [simp]:
  "caps_ok E (w\<lparr>copies := c\<rparr>) = caps_ok E w" "caps_ok E (w\<lparr>next_addr := n\<rparr>) = caps_ok E w"
  by (simp_all add: caps_ok_def)

lemma caps_ok_remove: "caps_ok E w \<Longrightarrow> caps_ok E (w\<lparr>heap := (heap w)(a := None)\<rparr>)"
  by (simp add: caps_ok_def)

lemma caps_ok_update:
  "caps_ok E w \<Longrightarrow> SMALL_SIZE E < ds_capacity d \<Longrightarrow> caps_ok E (w\<lparr>heap := (heap w)(a \<mapsto> d)\<rparr>)"
  by (simp add: caps_ok_def)

lemma caps_okD: "caps_ok E w \<Longrightarrow> heap w a = Some d \<Longrightarrow> SMALL_SIZE E < ds_capacity d"
  by (simp add: caps_ok_def)

lemma copy_construct_heap [simp]: "heap (fst (copy_construct E w x)) = heap w"
  by (simp add: copy_construct_def)

lemma swap_T_heap [simp]: "heap (fst (swap_T E w x y)) = heap w"
  by (simp add: swap_T_def copy_construct_def split: prod.splits option.splits)

lemma uninitialized_copy_loop_heap:
  "uninitialized_copy_loop E w src dst first i n = Done (w', r) \<or>
   uninitialized_copy_loop E w src dst first i n = Threw (w', r) \<Longrightarrow> heap w' = heap w"
proof (induction n arbitrary: w dst i)
  case 0
  then show ?case by simp
next
  case (Suc n)
  show ?case
  proof (cases "i < length src \<and> first + i < length dst")
    case False
    with Suc.prems show ?thesis by auto
  next
    case True
    show ?thesis
    proof (cases "src ! i")
      case None
      with True Suc.prems show ?thesis by simp
    next
      case (Some x)
      obtain w1 y where c: "copy_construct E w x = (w1, y)" by fastforce
      then have h: "heap w1 = heap w" using copy_construct_heap[of E w x] by simp
      show ?thesis
      proof (cases y)
        case None
        with True Some c Suc.prems h show ?thesis by auto
      next
        case (Some z)
        with True \<open>src ! i = Some x\<close> c Suc.prems
        have "uninitialized_copy_loop E w1 src (dst[first + i := Some z]) first (Suc i) n = Done (w', r) \<or>
              uninitialized_copy_loop E w1 src (dst[first + i := Some z]) first (Suc i) n = Threw (w', r)"
          by simp
        from Suc.IH[OF this] h show ?thesis by simp
      qed
    qed
  qed
qed

lemma uninitialized_copy_n_heap:
  "uninitialized_copy_n E w src n dst first = Done (w', r) \<Longrightarrow> heap w' = heap w"
  "uninitialized_copy_n E w src n dst first = Threw (w', r) \<Longrightarrow> heap w' = heap w"
  unfolding uninitialized_copy_n_def by (auto intro: uninitialized_copy_loop_heap)

lemma uninitialized_copy_n_keep:
  "uninitialized_copy_n E w src n dst first = Done (w', r) \<Longrightarrow> caps_ok E w \<Longrightarrow> caps_ok E w'"
  "uninitialized_copy_n E w src n dst first = Threw (w', r) \<Longrightarrow> caps_ok E w \<Longrightarrow> caps_ok E w'"
  by (auto dest: uninitialized_copy_n_heap intro: caps_ok_heapI)

lemma swap_ranges_loop_heap:
  "swap_ranges_loop E w xs ys i n = Done (w', r) \<or>
   swap_ranges_loop E w xs ys i n = Threw (w', r) \<Longrightarrow> heap w' = heap w"
proof (induction n arbitrary: w xs ys i)
  case 0
  then show ?case by simp
next
  case (Suc n)
  show ?case
  proof (cases "i < length xs \<and> i < length ys")
    case False
    with Suc.prems show ?thesis by auto
  next
    case True
    show ?thesis
    proof (cases "xs ! i")
      case None
      with True Suc.prems show ?thesis by simp
    next
      case sx: (Some x)
      show ?thesis
      proof (cases "ys ! i")
        case None
        with True sx Suc.prems show ?thesis by simp
      next
        case sy: (Some y)
        obtain w1 p where c: "swap_T E w x y = (w1, p)" by fastforce
        then have h: "heap w1 = heap w" using swap_T_heap[of E w x y] by simp
        show ?thesis
        proof (cases p)
          case None
          with True sx sy c Suc.prems h show ?thesis by auto
        next
          case (Some q)
          obtain x' y' where q: "q = (x', y')" by (cases q)
          with True sx sy c Some Suc.prems
          have "swap_ranges_loop E w1 (xs[i := Some x']) (ys[i := Some y']) (Suc i) n = Done (w', r) \<or>
                swap_ranges_loop E w1 (xs[i := Some x']) (ys[i := Some y']) (Suc i) n = Threw (w', r)"
            by simp
          from Suc.IH[OF this] h show ?thesis by simp
        qed
      qed
    qed
  qed
qed

lemma swap_ranges_heap:
  "swap_ranges E w xs ys n = Done (w', r) \<Longrightarrow> heap w' = heap w"
  "swap_ranges E w xs ys n = Threw (w', r) \<Longrightarrow> heap w' = heap w"
  unfolding swap_ranges_def by (auto intro: swap_ranges_loop_heap)

lemma swap_ranges_keep:
  "swap_ranges E w xs ys n = Done (w', r) \<Longrightarrow> caps_ok E w \<Longrightarrow> caps_ok E w'"
  "swap_ranges E w xs ys n = Threw (w', r) \<Longrightarrow> caps_ok E w \<Longrightarrow> caps_ok E w'"
  by (auto dest: swap_ranges_heap intro: caps_ok_heapI)

lemma dec_references_at_caps:
  "dec_references_at w p len = Done w' \<Longrightarrow> caps_ok E w \<Longrightarrow> caps_ok E w'"
  by (auto simp: dec_references_at_def Let_def caps_ok_def split: option.splits if_splits)

lemma dec_references_caps: "caps_ok E w \<Longrightarrow> keeps E (dec_references w v)"
  by (auto simp: dec_references_def keeps_def split: outcome.splits dest: dec_references_at_caps)

lemmas dec_references_keep =
  keeps_DoneD[OF dec_references_caps, rotated] keeps_ThrewD[OF dec_references_caps, rotated]

lemma destructor_caps: "destructor w v = Done w' \<Longrightarrow> caps_ok E w \<Longrightarrow> caps_ok E w'"
  by (auto simp: destructor_def split: outcome.splits prod.splits dest: dec_references_keep)

lemma get_copied_storage_caps:
  assumes "caps_ok E w" and "SMALL_SIZE E < cap"
  shows "case get_copied_storage E w src sz cap of
           Done (w', _) \<Rightarrow> caps_ok E w' | Threw w' \<Rightarrow> caps_ok E w' | Abort \<Rightarrow> True"
proof (cases "cap < sz")
  case True
  then show ?thesis by (simp add: get_copied_storage_def)
next
  case False
  show ?thesis
  proof (cases "get_new_empty_storage E w cap")
    case None
    with False show ?thesis by (simp add: get_copied_storage_def)
  next
    case (Some p)
    obtain w1 a where p: "p = (w1, a)" by (cases p)
    from Some p obtain n where w1: "w1 = w\<lparr>heap := (heap w)(a \<mapsto>
         \<lparr>ds_capacity = cap, ds_references = 1, ds_data = replicate n None\<rparr>),
         next_addr := Suc (next_addr w)\<rparr>"
      by (auto simp: get_new_empty_storage_def Let_def split: if_splits)
    have c1: "caps_ok E w1" using assms unfolding w1 by (simp add: caps_ok_def)
    have d: "deref w1 (Some a) = Some \<lparr>ds_capacity = cap, ds_references = 1, ds_data = replicate n None\<rparr>"
      by (simp add: w1 deref_def)
    show ?thesis
    proof (cases "uninitialized_copy_n E w1 src sz (replicate n None) 0")
      case (Done r)
      obtain w2 dat where r: "r = (w2, dat)" by (cases r)
      from Done r c1 have "caps_ok E w2" by (simp add: uninitialized_copy_n_keep(1))
      then have "caps_ok E (w2\<lparr>heap := (heap w2)(a \<mapsto>
           \<lparr>ds_capacity = cap, ds_references = 1, ds_data = dat\<rparr>)\<rparr>)"
        using assms(2) by (intro caps_ok_update) simp_all
      with False Some p d Done r show ?thesis by (simp add: get_copied_storage_def)
    next
      case (Threw r)
      obtain w2 dat where r: "r = (w2, dat)" by (cases r)
      from Threw r c1 have "caps_ok E w2" by (simp add: uninitialized_copy_n_keep(2))
      then have "caps_ok E (w2\<lparr>heap := (heap w2)(a := None)\<rparr>)" by (rule caps_ok_remove)
      with False Some p d Threw r show ?thesis by (simp add: get_copied_storage_def)
    next
      case Abort
      with False Some p d show ?thesis by (simp add: get_copied_storage_def)
    qed
  qed
qed

lemma get_copied_storage_keep:
  "get_copied_storage E w src sz cap = Done (w', a) \<Longrightarrow> caps_ok E w \<Longrightarrow> SMALL_SIZE E < cap
     \<Longrightarrow> caps_ok E w'"
  "get_copied_storage E w src sz cap = Threw w' \<Longrightarrow> caps_ok E w \<Longrightarrow> SMALL_SIZE E < cap
     \<Longrightarrow> caps_ok E w'"
  using get_copied_storage_caps[of E w cap src sz] by auto

lemma store_data_caps:
  "store_data w v arr = Some (w', v') \<Longrightarrow> caps_ok E w \<Longrightarrow> caps_ok E w'"
  by (auto simp: store_data_def caps_ok_def split: if_splits option.splits)

lemma copy_on_write_caps:
  assumes "caps_ok E w" and "SMALL_SIZE E < cap"
  shows "keeps E (copy_on_write E w v cap)"
  using assms
  by (auto simp: copy_on_write_def keeps_def
           split: outcome.splits prod.splits option.splits if_splits
           dest: get_copied_storage_keep dec_references_keep)

lemmas copy_on_write_keep =
  keeps_DoneD[OF copy_on_write_caps, rotated 2] keeps_ThrewD[OF copy_on_write_caps, rotated 2]

lemma capacity_caps:
  "caps_ok E w \<Longrightarrow> capacity E w v = Some c \<Longrightarrow> \<not> is_small v \<Longrightarrow> SMALL_SIZE E < c"
  by (auto simp: capacity_def deref_def caps_ok_def split: option.splits)

lemma check_cow_caps: "caps_ok E w \<Longrightarrow> keeps E (check_cow E w v)"
  by (auto simp: check_cow_def copied_def split: option.splits bool.splits if_splits
           intro!: copy_on_write_caps dest: capacity_caps)

lemma data_mut_caps: "caps_ok E w \<Longrightarrow> keeps E (data_mut E w v)"
  by (simp add: data_mut_def check_cow_caps)

lemma index_mut_caps: "caps_ok E w \<Longrightarrow> keeps E (index_mut E w v i)"
  by (simp add: index_mut_def data_mut_caps)

lemmas data_mut_keep =
  keeps_DoneD[OF data_mut_caps, rotated] keeps_ThrewD[OF data_mut_caps, rotated]
lemmas index_mut_keep =
  keeps_DoneD[OF index_mut_caps, rotated] keeps_ThrewD[OF index_mut_caps, rotated]

lemma copy_with_capacity_caps:
  assumes "caps_ok E w"
  shows "case copy_with_capacity E w v sz cap of
           Done (w', _) \<Rightarrow> caps_ok E w' | Threw w' \<Rightarrow> caps_ok E w' | Abort \<Rightarrow> True"
  using assms
  by (auto simp: copy_with_capacity_def split: outcome.splits prod.splits option.splits
           dest: get_copied_storage_keep)

lemma copy_with_capacity_keep:
  "copy_with_capacity E w v sz cap = Done (w', nv) \<Longrightarrow> caps_ok E w \<Longrightarrow> caps_ok E w'"
  "copy_with_capacity E w v sz cap = Threw w' \<Longrightarrow> caps_ok E w \<Longrightarrow> caps_ok E w'"
  using copy_with_capacity_caps[of E w v sz cap] by auto

lemma shrink_big_to_small_caps: "caps_ok E w \<Longrightarrow> keeps E (shrink_big_to_small E w v)"
  by (auto simp: shrink_big_to_small_def Let_def keeps_def
           split: outcome.splits prod.splits option.splits
           dest: uninitialized_copy_n_keep dec_references_at_caps)

lemma reserve_caps: "caps_ok E w \<Longrightarrow> keeps E (reserve E w v k)"
  by (auto simp: reserve_def deref_def split: option.splits
           intro!: copy_on_write_caps shrink_big_to_small_caps dest: caps_okD)

lemma shrink_to_fit_caps: "caps_ok E w \<Longrightarrow> keeps E (shrink_to_fit E w v)"
  by (auto simp: shrink_to_fit_def split: option.splits
           intro!: copy_on_write_caps shrink_big_to_small_caps)

lemmas reserve_keep =
  keeps_DoneD[OF reserve_caps, rotated] keeps_ThrewD[OF reserve_caps, rotated]

lemma swap_vec_heap:
  "swap_vec E w a b = Done (w', r) \<or> swap_vec E w a b = Threw (w', r) \<Longrightarrow> heap w' = heap w"
proof (induction E w a b arbitrary: r rule: swap_vec.induct)
  case (1 E w a b)
  show ?case
  proof (cases "(\<not> is_small a \<and> is_small b) \<or> (is_small a \<and> is_small b \<and> sv_size b < sv_size a)")
    case True
    with "1.prems" obtain r' where
      "swap_vec E w b a = Done (w', r') \<or> swap_vec E w b a = Threw (w', r')"
      by (subst (asm) (1 2) swap_vec.simps) (auto split: outcome.splits prod.splits)
    from "1.IH"[OF True this] show ?thesis .
  next
    case False
    with "1.prems" show ?thesis
      by (subst (asm) (1 2) swap_vec.simps)
         (auto simp: Let_def split: outcome.splits prod.splits if_splits
               dest!: uninitialized_copy_n_heap swap_ranges_heap)
  qed
qed

lemma swap_vec_caps: "caps_ok E w \<Longrightarrow> keeps E (swap_vec E w a b)"
  using swap_vec_heap[of E w a b]
  by (cases "swap_vec E w a b") (auto intro: caps_ok_heapI)

lemmas swap_vec_keep =
  keeps_DoneD[OF swap_vec_caps, rotated] keeps_ThrewD[OF swap_vec_caps, rotated]

lemma unwind_caps: "caps_ok E w \<Longrightarrow> keeps E (unwind w tmp v)"
  and leave_scope_caps: "caps_ok E w \<Longrightarrow> keeps E (leave_scope w tmp v)"
  by (auto simp: unwind_def leave_scope_def split: outcome.splits dest: destructor_caps)

lemma pop_back_caps: "caps_ok E w \<Longrightarrow> keeps E (pop_back E w v)"
  by (auto simp: pop_back_def split: outcome.splits prod.splits option.splits bool.splits
           intro!: unwind_caps leave_scope_caps
           dest: copy_with_capacity_keep swap_vec_keep data_mut_keep store_data_caps)

lemmas pop_back_keep =
  keeps_DoneD[OF pop_back_caps, rotated] keeps_ThrewD[OF pop_back_caps, rotated]

lemma pop_back_n_caps: "caps_ok E w \<Longrightarrow> keeps E (pop_back_n E w v n)"
  by (induction n arbitrary: w v)
     (auto split: outcome.splits prod.splits dest: pop_back_keep)

lemma clear_caps: "caps_ok E w \<Longrightarrow> keeps E (clear E w v)"
  by (auto simp: clear_def split: outcome.splits prod.splits option.splits
           intro!: pop_back_n_caps dest: dec_references_keep)


subsection \<open>\<^verbatim>\<open>push_back\<close> and copy assignment\<close>

text \<open>
  The branch of \<^verbatim>\<open>operator=\<close> for two inline vectors, from line 150 on (\<open>assign_tail\<close>) and
  from line 156 on (\<open>assign_swap\<close>).
\<close>

definition assign_swap ::
  "env \<Rightarrow> 'a socow_vector \<Rightarrow> 'a world \<Rightarrow> 'a socow_vector \<Rightarrow> 'a socow_vector \<Rightarrow> 'a vres" where
  "assign_swap E other w3 tmp2 v4 =
     (case data_mut E w3 tmp2 of
        Abort \<Rightarrow> Abort
      | Threw (w4, tmp4) \<Rightarrow> unwind w4 tmp4 v4
      | Done (w4, tmp4) \<Rightarrow>
          (case data_const w4 tmp4 of
             None \<Rightarrow> Abort
           | Some ta \<Rightarrow>
               (case swap_ranges E w4 ta (static_data v4) (sv_size tmp4) of
                  Abort \<Rightarrow> Abort
                | Threw (w5, ta', sa') \<Rightarrow>
                    (case store_data w5 tmp4 ta' of
                       None \<Rightarrow> Abort
                     | Some (w6, tmp6) \<Rightarrow>
                         unwind w6 tmp6 (v4\<lparr>static_data := sa'\<rparr>))
                | Done (w5, ta', sa') \<Rightarrow>
                    (case store_data w5 tmp4 ta' of
                       None \<Rightarrow> Abort
                     | Some (w6, tmp6) \<Rightarrow>
                         (case destructor w6 tmp6 of
                            Done w7 \<Rightarrow>
                              Done (w7, v4\<lparr>static_data := sa',
                                is_small := is_small other,
                                sv_size := sv_size other\<rparr>)
                          | _ \<Rightarrow> Abort)))))"

definition assign_tail ::
  "env \<Rightarrow> 'a socow_vector \<Rightarrow> 'a socow_vector \<Rightarrow> 'a world \<Rightarrow> 'a socow_vector \<Rightarrow> 'a vres" where
  "assign_tail E v other w2 tmp2 =
     (case (if sv_size v < sv_size other then
              (case uninitialized_copy_n E w2 (drop (sv_size v) (static_data other))
                      (sv_size other - sv_size v) (static_data v) (sv_size v) of
                 Abort \<Rightarrow> Abort
               | Threw (w3, sa) \<Rightarrow> Threw (w3, v\<lparr>static_data := sa\<rparr>)
               | Done (w3, sa) \<Rightarrow> Done (w3, v\<lparr>static_data := sa\<rparr>))
            else if sv_size other < sv_size v then
              Done (w2, v\<lparr>static_data := destroy_n (static_data v) (sv_size other)
                             (sv_size v - sv_size other)\<rparr>)
            else Done (w2, v)) of
        Abort \<Rightarrow> Abort
      | Threw (w3, v3) \<Rightarrow> unwind w3 tmp2 v3
      | Done (w3, v3) \<Rightarrow> assign_swap E other w3 tmp2 (v3\<lparr>sv_size := sv_size other\<rparr>))"

lemma assign_inline_unfold:
  assumes "is_small v \<and> is_small other"
  shows "assign E w v other =
     (case reserve E w (new_vector E) (min (sv_size v) (sv_size other)) of
        Abort \<Rightarrow> Abort
      | Threw (w1, tmp1) \<Rightarrow> unwind w1 tmp1 v
      | Done (w1, tmp1) \<Rightarrow>
          (case push_back_range E w1 tmp1 other 0 (min (sv_size v) (sv_size other)) of
             Abort \<Rightarrow> Abort
           | Threw (w2, tmp2) \<Rightarrow> unwind w2 tmp2 v
           | Done (w2, tmp2) \<Rightarrow> assign_tail E v other w2 tmp2))"
  unfolding assign_tail_def assign_swap_def
  using assms by (subst assign.simps) (simp only: simp_thms if_True Let_def)

lemma keeps_case:
  assumes "keeps E r"
    and "\<And>w1 x. r = Done (w1, x) \<Longrightarrow> caps_ok E w1 \<Longrightarrow> keeps E (k w1 x)"
    and "\<And>w1 y. r = Threw (w1, y) \<Longrightarrow> caps_ok E w1 \<Longrightarrow> keeps E (h w1 y)"
  shows "keeps E (case r of Abort \<Rightarrow> Abort | Threw (w1, y) \<Rightarrow> h w1 y | Done (w1, x) \<Rightarrow> k w1 x)"
  using assms by (cases r) auto

lemma store_unwind_caps:
  assumes "caps_ok E w"
  shows "keeps E (case store_data w t ta of None \<Rightarrow> Abort | Some (w6, tmp6) \<Rightarrow> unwind w6 tmp6 v')"
proof (cases "store_data w t ta")
  case None
  then show ?thesis by simp
next
  case (Some p)
  obtain w6 tmp6 where p: "p = (w6, tmp6)" by (cases p)
  with Some assms have "caps_ok E w6" by (auto dest: store_data_caps)
  then have "keeps E (unwind w6 tmp6 v')" by (rule unwind_caps)
  with Some p show ?thesis by simp
qed

lemma store_destroy_caps:
  assumes "caps_ok E w"
  shows "keeps E (case store_data w t ta of
                    None \<Rightarrow> Abort
                  | Some (w6, tmp6) \<Rightarrow>
                      (case destructor w6 tmp6 of Done w7 \<Rightarrow> Done (w7, f) | _ \<Rightarrow> Abort))"
proof (cases "store_data w t ta")
  case None
  then show ?thesis by simp
next
  case (Some p)
  obtain w6 tmp6 where p: "p = (w6, tmp6)" by (cases p)
  with Some assms have c: "caps_ok E w6" by (auto dest: store_data_caps)
  show ?thesis
  proof (cases "destructor w6 tmp6")
    case (Done w7)
    with c have "caps_ok E w7" by (auto dest: destructor_caps)
    with Some p Done show ?thesis by simp
  qed (simp_all add: Some p)
qed

lemma assign_swap_caps:
  assumes "caps_ok E w3"
  shows "keeps E (assign_swap E other w3 tmp2 v4)"
  unfolding assign_swap_def
proof (rule keeps_case[OF data_mut_caps[OF assms]])
  fix w4 :: "'a world" and tmp4 :: "'a socow_vector"
  assume "caps_ok E w4"
  then show "keeps E (unwind w4 tmp4 v4)" by (rule unwind_caps)
next
  fix w4 :: "'a world" and tmp4 :: "'a socow_vector"
  assume c4: "caps_ok E w4"
  show "keeps E
    (case data_const w4 tmp4 of
       None \<Rightarrow> Abort
     | Some ta \<Rightarrow>
         (case swap_ranges E w4 ta (static_data v4) (sv_size tmp4) of
            Abort \<Rightarrow> Abort
          | Threw (w5, ta', sa') \<Rightarrow>
              (case store_data w5 tmp4 ta' of
                 None \<Rightarrow> Abort
               | Some (w6, tmp6) \<Rightarrow>
                   unwind w6 tmp6 (v4\<lparr>static_data := sa'\<rparr>))
          | Done (w5, ta', sa') \<Rightarrow>
              (case store_data w5 tmp4 ta' of
                 None \<Rightarrow> Abort
               | Some (w6, tmp6) \<Rightarrow>
                   (case destructor w6 tmp6 of
                      Done w7 \<Rightarrow>
                        Done (w7, v4\<lparr>static_data := sa',
                          is_small := is_small other,
                          sv_size := sv_size other\<rparr>)
                    | _ \<Rightarrow> Abort))))"
  proof (cases "data_const w4 tmp4")
    case None
    then show ?thesis by simp
  next
    case (Some ta)
    show ?thesis
    proof (cases "swap_ranges E w4 ta (static_data v4) (sv_size tmp4)")
      case Abort
      with Some show ?thesis by simp
    next
      case (Threw r)
      obtain w5 ta' sa' where r: "r = (w5, ta', sa')" by (cases r)
      with Threw c4 have "caps_ok E w5" by (auto dest: swap_ranges_keep(2))
      from store_unwind_caps[OF this] Some Threw r show ?thesis by simp
    next
      case (Done r)
      obtain w5 ta' sa' where r: "r = (w5, ta', sa')" by (cases r)
      with Done c4 have "caps_ok E w5" by (auto dest: swap_ranges_keep(1))
      from store_destroy_caps[OF this] Some Done r show ?thesis by simp
    qed
  qed
qed

lemma assign_tail_caps:
  assumes "caps_ok E w2"
  shows "keeps E (assign_tail E v other w2 tmp2)"
  unfolding assign_tail_def
proof (rule keeps_case)
  show "keeps E (if sv_size v < sv_size other then
              (case uninitialized_copy_n E w2 (drop (sv_size v) (static_data other))
                      (sv_size other - sv_size v) (static_data v) (sv_size v) of
                 Abort \<Rightarrow> Abort
               | Threw (w3, sa) \<Rightarrow> Threw (w3, v\<lparr>static_data := sa\<rparr>)
               | Done (w3, sa) \<Rightarrow> Done (w3, v\<lparr>static_data := sa\<rparr>))
            else if sv_size other < sv_size v then
              Done (w2, v\<lparr>static_data := destroy_n (static_data v) (sv_size other)
                             (sv_size v - sv_size other)\<rparr>)
            else Done (w2, v))"
    using assms
    by (auto split: outcome.splits dest: uninitialized_copy_n_keep)
next
  fix w3 :: "'a world" and v3 :: "'a socow_vector"
  assume "caps_ok E w3"
  then show "keeps E (assign_swap E other w3 tmp2 (v3\<lparr>sv_size := sv_size other\<rparr>))"
    by (rule assign_swap_caps)
next
  fix w3 :: "'a world" and v3 :: "'a socow_vector"
  assume "caps_ok E w3"
  then show "keeps E (unwind w3 tmp2 v3)" by (rule unwind_caps)
qed

lemma assign_other_caps:
  assumes "caps_ok E w" and "\<not> (is_small v \<and> is_small other)"
  shows "keeps E (assign E w v other)"
proof (cases "\<not> is_small v \<and> is_small other")
  case True
  show ?thesis
  proof (cases "uninitialized_copy_n E w (static_data other) (sv_size other)
                  (static_data (v\<lparr>dynamic_data := None\<rparr>)) 0")
    case Abort
    with True show ?thesis by (subst assign.simps) (simp add: Let_def)
  next
    case (Threw r)
    obtain w1 sa where r: "r = (w1, sa)" by (cases r)
    with Threw assms(1) have "caps_ok E w1" by (auto dest: uninitialized_copy_n_keep(2))
    with True Threw r show ?thesis by (subst assign.simps) (simp add: Let_def)
  next
    case (Done r)
    obtain w1 sa where r: "r = (w1, sa)" by (cases r)
    with Done assms(1) have c1: "caps_ok E w1" by (auto dest: uninitialized_copy_n_keep(1))
    show ?thesis
    proof (cases "dec_references_at w1 (dynamic_data v) (sv_size v)")
      case d: (Done w2)
      with c1 have "caps_ok E w2" by (auto dest: dec_references_at_caps)
      with True Done r d show ?thesis by (subst assign.simps) (simp add: Let_def)
    qed (use True Done r in \<open>subst assign.simps, simp add: Let_def\<close>)+
  qed
next
  case False
  with assms(2) have br: "\<not> is_small other" by auto
  show ?thesis
  proof (cases "dec_references w v")
    case (Done r)
    obtain w1 v1 where r: "r = (w1, v1)" by (cases r)
    with Done assms(1) have c1: "caps_ok E w1" by (auto dest: dec_references_keep(1))
    show ?thesis
    proof (cases "dynamic_data other")
      case None
      with br Done r show ?thesis by (subst assign.simps) (simp add: Let_def)
    next
      case (Some a)
      show ?thesis
      proof (cases "heap w1 a")
        case None
        with br Done r Some show ?thesis by (subst assign.simps) (simp add: Let_def)
      next
        case hd: (Some d)
        with c1 have "SMALL_SIZE E < ds_capacity d" by (rule caps_okD)
        with c1 have "caps_ok E (w1\<lparr>heap := (heap w1)(a \<mapsto>
                        d\<lparr>ds_references := Suc (ds_references d)\<rparr>)\<rparr>)"
          by (intro caps_ok_update) simp_all
        with br Done r Some hd show ?thesis by (subst assign.simps) (simp add: Let_def)
      qed
    qed
  qed (use br in \<open>subst assign.simps, simp add: Let_def\<close>)+
qed

lemmas caps_chain =
  reserve_keep uninitialized_copy_n_keep swap_ranges_keep data_mut_keep store_data_caps
  destructor_caps dec_references_keep dec_references_at_caps

lemma unwind_keep:
  "unwind w tmp v = Threw (w', v') \<Longrightarrow> caps_ok E w \<Longrightarrow> caps_ok E w'"
  by (auto simp: unwind_def split: outcome.splits dest: destructor_caps)

lemma unwind_not_Done [simp]: "unwind w tmp v \<noteq> Done s"
  by (simp add: unwind_def split: outcome.splits)

lemma push_back_assign_caps:
  "caps_ok E w \<Longrightarrow> keeps E (push_back E w v x)"
  "caps_ok E w \<Longrightarrow> keeps E (assign E w v other)"
  "caps_ok E w \<Longrightarrow> keeps E (push_back_range E w tmp other i n)"
proof (induction E w v x and E w v other and E w tmp other i n
       rule: push_back_assign_push_back_range.induct)
  case (1 E w v x)
  show ?case
  proof (cases "capacity E w v")
    case None
    then show ?thesis by (subst push_back.simps) simp
  next
    case (Some c)
    show ?thesis
    proof (cases "copied w v")
      case None
      with Some show ?thesis by (subst push_back.simps) simp
    next
      case cp: (Some cp)
      show ?thesis
      proof (cases "sv_size v = c \<or> cp")
        case True
        show ?thesis
        proof (cases "copy_with_capacity E w v (sv_size v) (size_t (c * 2))")
          case Abort
          with Some cp True show ?thesis by (subst push_back.simps) simp
        next
          case (Threw w1)
          with "1.prems" have "caps_ok E w1" by (simp add: copy_with_capacity_keep(2))
          with Some cp True Threw show ?thesis by (subst push_back.simps) simp
        next
          case (Done r1)
          obtain w1 nv where r1: "r1 = (w1, nv)" by (cases r1)
          with Done "1.prems" have c1: "caps_ok E w1" by (simp add: copy_with_capacity_keep(1))
          note ih1 = "1.IH"(1)[OF Some cp True Done[unfolded r1] refl c1]
          show ?thesis
          proof (cases "push_back E w1 nv x")
            case Abort
            with Some cp True Done r1 show ?thesis by (subst push_back.simps) simp
          next
            case (Threw r2)
            obtain w2 nv2 where r2: "r2 = (w2, nv2)" by (cases r2)
            with ih1 Threw have "caps_ok E w2" by simp
            then have "keeps E (unwind w2 nv2 v)" by (rule unwind_caps)
            with Some cp True Done r1 Threw r2 show ?thesis by (subst push_back.simps) simp
          next
            case d2: (Done r2)
            obtain w2 nv2 where r2: "r2 = (w2, nv2)" by (cases r2)
            with ih1 d2 have c2: "caps_ok E w2" by simp
            note ih2 = "1.IH"(2)[OF Some cp True Done[unfolded r1] refl d2[unfolded r2] refl c2]
            show ?thesis
            proof (cases "assign E w2 v nv2")
              case Abort
              with Some cp True Done r1 d2 r2 show ?thesis by (subst push_back.simps) simp
            next
              case (Threw r3)
              obtain w3 v3 where r3: "r3 = (w3, v3)" by (cases r3)
              with ih2 Threw have "caps_ok E w3" by simp
              then have "keeps E (unwind w3 nv2 v3)" by (rule unwind_caps)
              with Some cp True Done r1 d2 r2 Threw r3 show ?thesis
                by (subst push_back.simps) simp
            next
              case d3: (Done r3)
              obtain w3 v3 where r3: "r3 = (w3, v3)" by (cases r3)
              with ih2 d3 have "caps_ok E w3" by simp
              then have "keeps E (leave_scope w3 nv2 v3)" by (rule leave_scope_caps)
              with Some cp True Done r1 d2 r2 d3 r3 show ?thesis
                by (subst push_back.simps) simp
            qed
          qed
        qed
      next
        case False
        have "keeps E
          (case data_mut E w v of
             Abort \<Rightarrow> Abort
           | Threw s \<Rightarrow> Threw s
           | Done (w1, v1) \<Rightarrow>
               (case copy_construct E w1 x of
                  (w2, None) \<Rightarrow> Threw (w2, v1)
                | (w2, Some y) \<Rightarrow>
                    (case data_const w2 v1 of
                       None \<Rightarrow> Abort
                     | Some arr \<Rightarrow>
                         if sv_size v1 < length arr then
                           (case store_data w2 v1 (arr[sv_size v1 := Some y]) of
                              None \<Rightarrow> Abort
                            | Some (w3, v3) \<Rightarrow>
                                Done (w3, v3\<lparr>sv_size := Suc (sv_size v3)\<rparr>))
                         else Abort)))"
        proof (rule keeps_bind[OF data_mut_caps[OF "1.prems"]])
          fix w1 :: "'a world" and v1 :: "'a socow_vector"
          assume "caps_ok E w1"
          then have "caps_ok E (w1\<lparr>copies := Suc (copies w1)\<rparr>)" by simp
          then show "keeps E
            (case copy_construct E w1 x of
               (w2, None) \<Rightarrow> Threw (w2, v1)
             | (w2, Some y) \<Rightarrow>
                 (case data_const w2 v1 of
                    None \<Rightarrow> Abort
                  | Some arr \<Rightarrow>
                      if sv_size v1 < length arr then
                        (case store_data w2 v1 (arr[sv_size v1 := Some y]) of
                           None \<Rightarrow> Abort
                         | Some (w3, v3) \<Rightarrow>
                             Done (w3, v3\<lparr>sv_size := Suc (sv_size v3)\<rparr>))
                      else Abort))"
            using store_data_caps[of "w1\<lparr>copies := Suc (copies w1)\<rparr>" v1 _ _ _ E]
            by (auto simp: copy_construct_def split: option.splits)
        qed
        with Some cp False show ?thesis by (subst push_back.simps) simp
      qed
    qed
  qed
next
  case (2 E w v other)
  show ?case
  proof (cases "is_small v \<and> is_small other")
    case True
    let ?n = "min (sv_size v) (sv_size other)"
    show ?thesis
      unfolding assign_inline_unfold[OF True]
    proof (rule keeps_case[OF reserve_caps[OF "2.prems"]])
      fix w1 :: "'a world" and tmp1 :: "'a socow_vector"
      assume "caps_ok E w1"
      then show "keeps E (unwind w1 tmp1 v)" by (rule unwind_caps)
    next
      fix w1 :: "'a world" and tmp1 :: "'a socow_vector"
      assume r: "reserve E w (new_vector E) ?n = Done (w1, tmp1)" and c1: "caps_ok E w1"
      note ih = "2.IH"[OF True refl r refl c1]
      show "keeps E (case push_back_range E w1 tmp1 other 0 ?n of
             Abort \<Rightarrow> Abort
           | Threw (w2, tmp2) \<Rightarrow> unwind w2 tmp2 v
           | Done (w2, tmp2) \<Rightarrow> assign_tail E v other w2 tmp2)"
      proof (rule keeps_case[OF ih])
        fix w2 :: "'a world" and tmp2 :: "'a socow_vector"
        assume "caps_ok E w2"
        then show "keeps E (unwind w2 tmp2 v)" by (rule unwind_caps)
      next
        fix w2 :: "'a world" and tmp2 :: "'a socow_vector"
        assume "caps_ok E w2"
        then show "keeps E (assign_tail E v other w2 tmp2)" by (rule assign_tail_caps)
      qed
    qed
  next
    case False
    with "2.prems" show ?thesis by (rule assign_other_caps)
  qed
next
  case (3 E w tmp other i n)
  show ?case
  proof (cases "i < n")
    case False
    with "3.prems" show ?thesis by (subst push_back_range.simps) simp
  next
    case True
    show ?thesis
    proof (cases "index_const w other i")
      case None
      with True show ?thesis by (subst push_back_range.simps) simp
    next
      case (Some x)
      note ih1 = "3.IH"(1)[OF True Some "3.prems"]
      show ?thesis
      proof (cases "push_back E w tmp x")
        case Abort
        with True Some show ?thesis by (subst push_back_range.simps) simp
      next
        case (Threw s)
        with ih1 True Some show ?thesis by (subst push_back_range.simps) simp
      next
        case (Done r)
        obtain w' tmp' where r: "r = (w', tmp')" by (cases r)
        with ih1 Done have "caps_ok E w'" by simp
        from "3.IH"(2)[OF True Some Done[unfolded r] refl this]
        show ?thesis using True Some Done r by (subst push_back_range.simps) simp
      qed
    qed
  qed
qed


subsection \<open>The other members\<close>

lemma keeps_if: "keeps E a \<Longrightarrow> keeps E b \<Longrightarrow> keeps E (if c then a else b)"
  by simp

lemma keeps_option:
  "(\<And>y. keeps E (f y)) \<Longrightarrow> keeps E (case x of None \<Rightarrow> Abort | Some y \<Rightarrow> f y)"
  by (cases x) simp_all

lemma keeps_bool: "keeps E a \<Longrightarrow> keeps E b \<Longrightarrow> keeps E (case c of True \<Rightarrow> a | False \<Rightarrow> b)"
  by (cases c) simp_all

lemmas assign_keep =
  keeps_DoneD[OF push_back_assign_caps(2), rotated]
  keeps_ThrewD[OF push_back_assign_caps(2), rotated]

lemmas keeps_intros =
  keeps_case keeps_bind keeps_if keeps_option keeps_bool keeps_simps(3)
  unwind_caps leave_scope_caps reserve_caps shrink_to_fit_caps push_back_assign_caps
  data_mut_caps index_mut_caps pop_back_caps pop_back_n_caps clear_caps swap_vec_caps

lemma copy_constructor_caps:
  assumes "caps_ok E w"
  shows "case copy_constructor E w other of
           Done (w', _) \<Rightarrow> caps_ok E w' | Threw w' \<Rightarrow> caps_ok E w' | Abort \<Rightarrow> True"
  using assms
  by (auto simp: copy_constructor_def split: outcome.splits prod.splits dest: assign_keep)

lemma operator_assign_caps: "caps_ok E w \<Longrightarrow> keeps E (operator_assign E w v r)"
  by (cases r) (simp_all add: operator_assign_def push_back_assign_caps)

lemma swap_caps: "caps_ok E w \<Longrightarrow> keeps E (swap E w a r)"
  by (cases r) (auto simp: swap_def split: outcome.splits prod.splits dest: swap_vec_keep)

lemma store_done_caps:
  "caps_ok E w \<Longrightarrow> keeps E (case store_data w v arr of None \<Rightarrow> Abort | Some s \<Rightarrow> Done s)"
  by (auto split: option.splits dest: store_data_caps)

lemma swap_elems_caps: "caps_ok E w \<Longrightarrow> keeps E (swap_elems E w v i j)"
  unfolding swap_elems_def
proof (intro keeps_intros, assumption+)
  fix w2 :: "'a world" and v2 :: "'a socow_vector" and arr :: "'a option list"
  assume c2: "caps_ok E w2"
  show "keeps E
        (case (arr ! i, arr ! j) of
           (Some x, Some y) \<Rightarrow>
             (case swap_T E w2 x y of
                (w3, None) \<Rightarrow> Threw (w3, v2)
              | (w3, Some (x', y')) \<Rightarrow>
                  (case store_data w3 v2 (arr[i := Some x', j := Some y']) of
                     None \<Rightarrow> Abort
                   | Some s \<Rightarrow> Done s))
         | _ \<Rightarrow> Abort)"
  proof (cases "arr ! i")
    case None
    then show ?thesis by simp
  next
    case sx: (Some x)
    show ?thesis
    proof (cases "arr ! j")
      case None
      with sx show ?thesis by simp
    next
      case sy: (Some y)
      obtain w3 p where t: "swap_T E w2 x y = (w3, p)" by fastforce
      have "heap w3 = heap w2" using swap_T_heap[of E w2 x y] t by simp
      with c2 have c3: "caps_ok E w3" by (rule caps_ok_heapI)
      show ?thesis
      proof (cases p)
        case None
        with sx sy t c3 show ?thesis by simp
      next
        case (Some q)
        obtain x' y' where q: "q = (x', y')" by (cases q)
        from store_done_caps[OF c3] sx sy t Some q show ?thesis by simp
      qed
    qed
  qed
qed

lemmas swap_elems_keep =
  keeps_DoneD[OF swap_elems_caps, rotated] keeps_ThrewD[OF swap_elems_caps, rotated]

lemma insert_shift_caps: "caps_ok E w \<Longrightarrow> keeps E (insert_shift E w v diff j)"
proof (induction j arbitrary: w v)
  case 0
  then show ?case by simp
next
  case (Suc j)
  show ?case
    unfolding insert_shift.simps
    by (intro keeps_intros swap_elems_caps Suc.IH) (use Suc.prems in simp_all)
qed

lemma insert_build_caps: "caps_ok E w \<Longrightarrow> keeps E (insert_build E w v diff x nc)"
  unfolding insert_build_def
  by (intro keeps_intros; assumption)

lemma insert_vec_caps: "caps_ok E w \<Longrightarrow> keeps E (insert_vec E w v diff x)"
  unfolding insert_vec_unfold
  by (intro keeps_intros insert_build_caps insert_shift_caps; assumption)

lemma erase_shift_caps: "caps_ok E w \<Longrightarrow> keeps E (erase_shift E w v rng i)"
proof (induction E w v rng i rule: erase_shift.induct)
  case (1 E w v rng i)
  show ?case
  proof (cases "i < size_t_minus (sv_size v) rng")
    case False
    with "1.prems" show ?thesis by (subst erase_shift.simps) simp
  next
    case True
    have "keeps E (case swap_elems E w v i (i + rng) of
           Abort \<Rightarrow> Abort
         | Threw s \<Rightarrow> Threw s
         | Done (w', v') \<Rightarrow> erase_shift E w' v' rng (Suc i))"
    proof (rule keeps_bind[OF swap_elems_caps[OF "1.prems"]])
      fix w1 :: "'a world" and v1 :: "'a socow_vector"
      assume "swap_elems E w v i (i + rng) = Done (w1, v1)" and "caps_ok E w1"
      then show "keeps E (erase_shift E w1 v1 rng (Suc i))"
        using "1.IH"[OF True _ refl] by simp
    qed
    with True show ?thesis by (subst erase_shift.simps) simp
  qed
qed

lemma keeps_prod: "(\<And>a b. keeps E (f a b)) \<Longrightarrow> keeps E (case p of (a, b) \<Rightarrow> f a b)"
  by (cases p) simp

lemma erase_caps: "caps_ok E w \<Longrightarrow> keeps E (erase E w v start rng)"
  unfolding erase_def
  by (intro keeps_intros erase_shift_caps keeps_prod; assumption)

lemma erase_one_caps: "caps_ok E w \<Longrightarrow> keeps E (erase_one E w v pos)"
  by (simp add: erase_one_def erase_caps)

lemma write_at_caps: "caps_ok E w \<Longrightarrow> keeps E (write_at E w v i x)"
  unfolding write_at_def
  by (intro keeps_intros store_done_caps; assumption)

subsection \<open>Every state a program can reach\<close>

lemma world_after_caps: "keeps E r \<Longrightarrow> world_after r = Some w' \<Longrightarrow> caps_ok E w'"
  by (auto simp: world_after_def keeps_def split: outcome.splits prod.splits)

lemma call_world_caps:
  assumes "caps_ok E w" and "call_world E w v c = Some w'"
  shows "caps_ok E w'"
proof (cases c)
  case Construct_copy
  with assms copy_constructor_caps[OF assms(1), of v] show ?thesis
    by (auto split: outcome.splits prod.splits)
next
  case Destroy
  with assms show ?thesis by (auto split: outcome.splits dest: destructor_caps)
next
  case Front
  with assms show ?thesis
    by (auto simp: front_mut_def intro: world_after_caps[OF index_mut_caps] split: if_splits
             simp: world_after_def)
next
  case Back
  with assms show ?thesis
    by (auto simp: back_mut_def intro: world_after_caps[OF index_mut_caps] split: if_splits
             simp: world_after_def)
qed (use assms in \<open>auto intro: world_after_caps[OF operator_assign_caps]
  world_after_caps[OF index_mut_caps] world_after_caps[OF data_mut_caps]
  world_after_caps[OF write_at_caps] world_after_caps[OF push_back_assign_caps(1)]
  world_after_caps[OF pop_back_caps] world_after_caps[OF reserve_caps]
  world_after_caps[OF shrink_to_fit_caps] world_after_caps[OF clear_caps]
  world_after_caps[OF swap_caps] world_after_caps[OF insert_vec_caps]
  world_after_caps[OF erase_one_caps] world_after_caps[OF erase_caps]\<close>)

lemma run_caps: "caps_ok E w \<Longrightarrow> run E w cs = Some w' \<Longrightarrow> caps_ok E w'"
proof (induction cs arbitrary: w)
  case Nil
  then show ?case by simp
next
  case (Cons p cs)
  obtain v c where p: "p = (v, c)" by (cases p)
  with Cons.prems obtain w1 where c: "call_world E w v c = Some w1" and r: "run E w1 cs = Some w'"
    by (auto split: option.splits)
  from call_world_caps[OF Cons.prems(1) c] have "caps_ok E w1" .
  from Cons.IH[OF this r] show ?case .
qed

lemma caps_ok_empty: "caps_ok E empty_world"
  by (simp add: caps_ok_def empty_world_def)

section \<open>Example states\<close>

text \<open>
  Inline capacity 2 and a copy constructor that never throws. Three calls of
  \<^verbatim>\<open>push_back\<close> on an empty vector give the handle \<open>ex_vec\<close> in the world \<open>ex_world 1\<close>;
  copy-constructing a second handle from it gives \<open>ex_world 2\<close>.
\<close>

definition ex_env :: env where
  "ex_env = \<lparr>SMALL_SIZE = 2, copy_throws = (\<lambda>_. False), swap_copies = False, sizeof_T = 8\<rparr>"

definition ex_block :: "nat \<Rightarrow> nat dynamic_storage" where
  "ex_block r = \<lparr>ds_capacity = 4, ds_references = r, ds_data = [Some 1, Some 2, Some 3, None]\<rparr>"

definition ex_world :: "nat \<Rightarrow> nat world" where
  "ex_world r = \<lparr>heap = Map.empty(0 \<mapsto> ex_block r), next_addr = 1, copies = 5\<rparr>"

definition ex_vec :: "nat socow_vector" where
  "ex_vec = \<lparr>sv_size = 3, is_small = False, static_data = [None, None], dynamic_data = Some 0\<rparr>"

text \<open>The same vector after one \<^verbatim>\<open>pop_back\<close>, and an inline vector holding one element.\<close>

definition ex_popped_world :: "nat world" where
  "ex_popped_world =
     \<lparr>heap = Map.empty(0 \<mapsto> \<lparr>ds_capacity = 4, ds_references = 1,
                               ds_data = [Some 1, Some 2, None, None]\<rparr>),
      next_addr = 1, copies = 5\<rparr>"

definition ex_popped :: "nat socow_vector" where
  "ex_popped = \<lparr>sv_size = 2, is_small = False, static_data = [None, None], dynamic_data = Some 0\<rparr>"

definition ex_inline :: "nat socow_vector" where
  "ex_inline = \<lparr>sv_size = 1, is_small = True, static_data = [Some 7, None], dynamic_data = None\<rparr>"

lemmas ex_defs = ex_env_def ex_world_def ex_vec_def ex_block_def new_vector_def
  ex_popped_world_def ex_popped_def ex_inline_def

text \<open>Requests for at most 64 objects of 8 bytes do not wrap.\<close>

lemma fits_small: "sizeof_T E = 8 \<Longrightarrow> cap \<le> 64 \<Longrightarrow> fits E cap"
  by (simp add: fits_def sizeof_storage_def)

lemma size_t_small: "n \<le> 64 \<Longrightarrow> size_t n = n"
  by (simp add: size_t_def)

lemmas unfold_ops = capacity_def copied_def data_mut_def copy_construct_def data_const_def
  store_data_def deref_def check_cow_def copy_with_capacity_def get_copied_storage_def
  get_new_empty_storage_fits fits_small size_t_small
  uninitialized_copy_n_def unwind_def leave_scope_def destructor_def
  dec_references_def dec_references_at_def copy_on_write_def index_const_def

lemma ex_vec_built:
  "push_back ex_env \<lparr>heap = Map.empty, next_addr = 0, copies = 2\<rparr>
     \<lparr>sv_size = 2, is_small = True, static_data = [Some 1, Some 2], dynamic_data = None\<rparr> 3
   = Done (ex_world 1, ex_vec)"
  by (simp add: push_back.simps assign.simps ex_defs unfold_ops eval_nat_numeral)

lemma ex_vec_copied:
  "copy_constructor ex_env (ex_world 1) ex_vec = Done (ex_world 2, ex_vec)"
  by (simp add: copy_constructor_def assign.simps ex_defs unfold_ops eval_nat_numeral)

lemma ex_vec_popped:
  "pop_back ex_env (ex_world 1) ex_vec = Done (ex_popped_world, ex_popped)"
  by (simp add: pop_back_def ex_defs unfold_ops eval_nat_numeral)

lemma ex_world_alloc_ok: "alloc_ok (ex_world r)"
  by (simp add: alloc_ok_def ex_defs)

lemma ex_vec_valid: "0 < r \<Longrightarrow> valid ex_env (ex_world r) ex_vec"
  using valid_heapI(1)[of ex_vec "[1, 2, 3]" ex_env 0 "ex_world r" "ex_block r"]
  by (simp add: ex_defs slots_def eval_nat_numeral)

lemma ex_vec_elems: "0 < r \<Longrightarrow> elems (ex_world r) ex_vec = [1, 2, 3]"
  using valid_heapI(2)[of ex_vec "[1, 2, 3]" ex_env 0 "ex_world r" "ex_block r"]
  by (simp add: ex_defs slots_def eval_nat_numeral)

lemma ex_vec_shared: "shared (ex_world r) ex_vec \<longleftrightarrow> 1 < r"
  by (simp add: shared_def own_def ex_defs)

lemma ex_fits: "cap \<le> 64 \<Longrightarrow> fits ex_env cap"
  by (simp add: fits_small ex_env_def)

text \<open>
  The same element type with inline capacity 0, the store before any allocation, and
  the empty vector after \<^verbatim>\<open>reserve(2^63)\<close>: the request for \<open>16 + 8 * 2^63\<close> bytes wraps to
  16 bytes, so the block records capacity \<open>2^63\<close> and has room for no element.
  \<open>ex_huge_world 2\<close> is the store after that vector has been copied.
\<close>

definition ex_env0 :: env where
  "ex_env0 = \<lparr>SMALL_SIZE = 0, copy_throws = (\<lambda>_. False), swap_copies = False, sizeof_T = 8\<rparr>"

definition ex_empty_world :: "nat world" where
  "ex_empty_world = \<lparr>heap = Map.empty, next_addr = 0, copies = 0\<rparr>"

definition ex_huge_world :: "nat \<Rightarrow> nat world" where
  "ex_huge_world r =
     \<lparr>heap = Map.empty(0 \<mapsto> \<lparr>ds_capacity = 9223372036854775808, ds_references = r,
                               ds_data = []\<rparr>),
      next_addr = 1, copies = 0\<rparr>"

definition ex_huge_vec :: "nat socow_vector" where
  "ex_huge_vec = \<lparr>sv_size = 0, is_small = False, static_data = [None, None], dynamic_data = Some 0\<rparr>"

lemmas unfold_alloc = capacity_def copied_def data_mut_def copy_construct_def data_const_def
  store_data_def deref_def check_cow_def copy_with_capacity_def get_copied_storage_def
  get_new_empty_storage_def size_t_def sizeof_storage_def Let_def
  uninitialized_copy_n_def unwind_def leave_scope_def destructor_def
  dec_references_def dec_references_at_def copy_on_write_def index_const_def

lemma replicate_2: "replicate 2 x = [x, x]"
  by (simp add: numeral_2_eq_2)

lemma ex_huge_built:
  "reserve ex_env ex_empty_world (new_vector ex_env) 9223372036854775808 =
     Done (ex_huge_world 1, ex_huge_vec)"
  by (simp add: reserve_def ex_env_def ex_empty_world_def ex_huge_world_def ex_huge_vec_def
        new_vector_def unfold_alloc replicate_2)

lemma ex_huge_copied:
  "copy_constructor ex_env (ex_huge_world 1) ex_huge_vec = Done (ex_huge_world 2, ex_huge_vec)"
  by (simp add: copy_constructor_def assign.simps ex_env_def ex_huge_world_def ex_huge_vec_def
        unfold_alloc replicate_2)
     (simp add: numeral_2_eq_2)

text \<open>
  Two inline vectors of an element type whose \<^verbatim>\<open>std::swap\<close> goes through the copy
  constructor; the copy constructor throws at its invocation number 3 and at no
  other.
\<close>

definition ex_swap_env :: env where
  "ex_swap_env = \<lparr>SMALL_SIZE = 2, copy_throws = (\<lambda>k. k = 3), swap_copies = True, sizeof_T = 8\<rparr>"

definition ex_this :: "nat socow_vector" where
  "ex_this = \<lparr>sv_size = 2, is_small = True, static_data = [Some 1, Some 2], dynamic_data = None\<rparr>"

definition ex_pair :: "nat socow_vector" where
  "ex_pair = \<lparr>sv_size = 2, is_small = True, static_data = [Some 7, Some 8], dynamic_data = None\<rparr>"


section \<open>Copy construction from a heap-backed vector\<close>

text \<open>
  Claim C2. Copy-constructing \<open>B\<close> from a heap-backed \<open>A\<close> returns; \<open>B\<close> holds the address
  of \<open>A\<close>'s block, whose reference count has gone up by one and which is otherwise as
  it was; \<open>B\<close> has \<open>A\<close>'s size and reports \<open>A\<close>'s elements; the number of copy-constructor
  invocations has not changed.
\<close>

theorem copy_constructor_shares:
  assumes "\<not> is_small A" and "dynamic_data A = Some p" and "heap w p = Some d"
  shows "\<exists>w' B. copy_constructor E w A = Done (w', B)
           \<and> \<not> is_small B \<and> dynamic_data B = dynamic_data A
           \<and> heap w' = (heap w)(p \<mapsto> d\<lparr>ds_references := Suc (ds_references d)\<rparr>)
           \<and> sv_size B = sv_size A
           \<and> contents w' B = contents w A \<and> contents w' A = contents w A
           \<and> copies w' = copies w"
  using assms
  by (simp add: copy_constructor_def assign.simps dec_references_def contents_def
        index_const_def data_const_def deref_def)

theorem copy_constructor_shares_witness:
  "\<exists>w' B. copy_constructor ex_env (ex_world 1) ex_vec = Done (w', B)
           \<and> \<not> is_small B \<and> dynamic_data B = dynamic_data ex_vec
           \<and> heap w' = (heap (ex_world 1))(0 \<mapsto> ex_block 2)
           \<and> sv_size B = 3
           \<and> contents w' B = [Some 1, Some 2, Some 3]
           \<and> contents w' ex_vec = [Some 1, Some 2, Some 3]
           \<and> copies w' = 5"
  using copy_constructor_shares[of ex_vec 0 "ex_world 1" "ex_block 1" ex_env]
  by (simp add: ex_defs contents_def index_const_def data_const_def deref_def
        eval_nat_numeral upt_rec)

section \<open>When \<^verbatim>\<open>reserve\<close> does nothing\<close>

text \<open>
  Claim C4, as stated, fails where \<open>new_capacity = size()\<close> on a shared heap vector:
  the first guard of \<^verbatim>\<open>reserve\<close> is \<^verbatim>\<open>size() > new_capacity\<close>, so the call goes on to
  \<^verbatim>\<open>copy_on_write(3)\<close>. The vector, which shared the block at address 0 of capacity 4,
  leaves it (its count goes from 2 to 1) and holds a new block at address 1 of
  capacity 3 and count 1; three copy constructors have run.
\<close>

theorem reserve_at_size_counterexample:
  "3 \<le> sv_size ex_vec \<and> capacity ex_env (ex_world 2) ex_vec = Some 4 \<and>
   shared (ex_world 2) ex_vec \<and>
   reserve ex_env (ex_world 2) ex_vec 3 =
     Done (\<lparr>heap = Map.empty(0 \<mapsto> ex_block 1,
                              1 \<mapsto> \<lparr>ds_capacity = 3, ds_references = 1,
                                     ds_data = [Some 1, Some 2, Some 3]\<rparr>),
             next_addr = 2, copies = 8\<rparr>,
           \<lparr>sv_size = 3, is_small = False, static_data = [None, None], dynamic_data = Some 1\<rparr>)"
  by (simp add: reserve_def shared_def own_def ex_defs unfold_ops eval_nat_numeral fun_upd_twist)

text \<open>
  Claim C4, amended. \<^verbatim>\<open>reserve(new_capacity)\<close> returns with the world and the handle
  unchanged whenever \<open>new_capacity < size()\<close>, whenever \<open>new_capacity = size()\<close> and the
  buffer of the (well-formed) vector is not shared, and whenever the vector is inline
  and \<open>new_capacity \<le> SMALL_SIZE\<close>.
\<close>

theorem reserve_noop:
  assumes "new_capacity < sv_size v \<or>
           (new_capacity = sv_size v \<and> valid E w v \<and> \<not> shared w v) \<or>
           (is_small v \<and> new_capacity \<le> SMALL_SIZE E)"
  shows "reserve E w v new_capacity = Done (w, v)"
proof (cases "new_capacity = sv_size v \<and> valid E w v \<and> \<not> shared w v")
  case True
  then have v: "valid E w v" and k: "new_capacity = sv_size v" and ns: "\<not> shared w v"
    by simp_all
  from v show ?thesis
  proof (cases rule: valid_cases)
    case (small xs dyn)
    then show ?thesis using k by (simp add: reserve_def)
  next
    case (heap xs p cap r)
    with ns have "r = 1" by (simp add: shared_def)
    with heap k show ?thesis by (simp add: reserve_def deref_def)
  qed
next
  case False
  with assms show ?thesis by (auto simp: reserve_def)
qed

theorem reserve_noop_witness:
  "(2 < sv_size ex_vec \<or>
    (2 = sv_size ex_vec \<and> valid ex_env (ex_world 2) ex_vec \<and> \<not> shared (ex_world 2) ex_vec) \<or>
    (is_small ex_vec \<and> 2 \<le> SMALL_SIZE ex_env))
   \<and> reserve ex_env (ex_world 2) ex_vec 2 = Done (ex_world 2, ex_vec)
   \<and> (3 < sv_size ex_vec \<or>
    (3 = sv_size ex_vec \<and> valid ex_env (ex_world 1) ex_vec \<and> \<not> shared (ex_world 1) ex_vec) \<or>
    (is_small ex_vec \<and> 3 \<le> SMALL_SIZE ex_env))
   \<and> reserve ex_env (ex_world 1) ex_vec 3 = Done (ex_world 1, ex_vec)"
proof -
  have a: "2 < sv_size ex_vec" by (simp add: ex_vec_def)
  have b: "3 = sv_size ex_vec \<and> valid ex_env (ex_world 1) ex_vec \<and> \<not> shared (ex_world 1) ex_vec"
    by (simp add: ex_vec_valid ex_vec_shared) (simp add: ex_vec_def)
  from reserve_noop[of 2 ex_vec ex_env "ex_world 2"] reserve_noop[of 3 ex_vec ex_env "ex_world 1"]
    a b show ?thesis by simp
qed

section \<open>Copy assignment of a heap vector to an inline one\<close>

text \<open>
  Claim C5, as stated, fails: the heap vector \<open>ex_popped\<close> has two elements, which fit
  the inline capacity 2, and assigning it to the inline \<open>ex_inline\<close> leaves the target
  on the heap, holding the address of the source's block. No element is copied.
\<close>

theorem assign_inline_from_heap_counterexample:
  "sv_size ex_popped \<le> SMALL_SIZE ex_env \<and> is_small ex_inline \<and> \<not> is_small ex_popped
   \<and> assign ex_env ex_popped_world ex_inline ex_popped =
       Done (\<lparr>heap = Map.empty(0 \<mapsto> \<lparr>ds_capacity = 4, ds_references = 2,
                                         ds_data = [Some 1, Some 2, None, None]\<rparr>),
               next_addr = 1, copies = 5\<rparr>,
             \<lparr>sv_size = 2, is_small = False, static_data = [None, None],
              dynamic_data = Some 0\<rparr>)"
  by (simp add: assign.simps ex_defs unfold_ops eval_nat_numeral)

text \<open>
  Claim C5, amended. Copy assignment \<^verbatim>\<open>this = other\<close> with \<^verbatim>\<open>this\<close> inline and \<^verbatim>\<open>other\<close>
  heap-backed destroys the inline elements of \<^verbatim>\<open>this\<close> and takes a shared reference to
  the block of \<^verbatim>\<open>other\<close> (its reference count goes up by one), whatever the size of
  \<^verbatim>\<open>other\<close>; no element is copied.
\<close>

theorem assign_inline_from_heap:
  assumes "is_small v" and "\<not> is_small other"
    and "dynamic_data other = Some p" and "heap w p = Some d"
  shows "assign E w v other =
     Done (w\<lparr>heap := (heap w)(p \<mapsto> d\<lparr>ds_references := Suc (ds_references d)\<rparr>)\<rparr>,
           v\<lparr>static_data := destroy_n (static_data v) 0 (sv_size v),
             dynamic_data := Some p, is_small := False, sv_size := sv_size other\<rparr>)"
  using assms by (simp add: assign.simps dec_references_def)

theorem assign_inline_from_heap_witness:
  "is_small ex_inline \<and> \<not> is_small ex_vec
   \<and> assign ex_env (ex_world 1) ex_inline ex_vec =
       Done (ex_world 2,
             \<lparr>sv_size = 3, is_small = False, static_data = [None, None],
              dynamic_data = Some 0\<rparr>)"
  using assign_inline_from_heap[of ex_inline ex_vec 0 "ex_world 1" "ex_block 1" ex_env]
  by (simp add: ex_defs eval_nat_numeral)

section \<open>\<^verbatim>\<open>clear\<close>\<close>

text \<open>
  Claim C6. On a well-formed vector \<^verbatim>\<open>clear\<close> returns, invokes no copy constructor and
  leaves size 0. When the heap block is shared (reference count above 1) the vector
  drops its reference (\<open>release\<close>: the count goes down by one), becomes inline with
  capacity \<open>SMALL_SIZE\<close>, and every other well-formed handle on that block stays
  well-formed and reports the elements it reported before. Otherwise (inline, or sole
  owner of its block) the vector keeps its representation, its block and its capacity,
  and every slot of its array is raw storage afterwards.
\<close>

theorem clear_spec:
  assumes "valid E w v" and "alloc_ok w"
  shows "\<exists>w' v'. clear E w v = Done (w', v') \<and> copies w' = copies w \<and>
           valid E w' v' \<and> sv_size v' = 0 \<and> contents w' v' = [] \<and>
           (if shared w v then
              is_small v' \<and> capacity E w' v' = Some (SMALL_SIZE E) \<and>
              heap w' = release (heap w) (own v) \<and>
              (\<forall>B. valid E w B \<and> own B = own v \<longrightarrow>
                     valid E w' B \<and> contents w' B = contents w B)
            else
              is_small v' = is_small v \<and> own v' = own v \<and>
              capacity E w' v' = capacity E w v \<and>
              (\<forall>c. capacity E w v = Some c \<longrightarrow> data_const w' v' = Some (replicate c None)))"
proof (cases "shared w v")
  case True
  let ?w' = "w\<lparr>heap := release (heap w) (own v)\<rparr>" and ?v' = "small_vec E [] (dynamic_data v)"
  have cl: "clear E w v = Done (?w', ?v')" using assms(1) True by (rule clear_shared)
  from True obtain p d where p: "own v = Some p" "heap w p = Some d" "1 < ds_references d"
    by (auto simp: shared_def)
  have hp: "heap ?w' p = Some (d\<lparr>ds_references := ds_references d - 1\<rparr>)"
    using p by (simp add: release_def)
  have others: "\<forall>B. valid E w B \<and> own B = own v \<longrightarrow> valid E ?w' B \<and> contents ?w' B = contents w B"
  proof (intro allI impI, elim conjE)
    fix B :: "'a socow_vector" assume B: "valid E w B" "own B = own v"
    then have o: "own B = Some p" using p by simp
    show "valid E ?w' B \<and> contents ?w' B = contents w B"
      using valid_same_block[OF B(1) o p(2) hp] contents_same_data[OF o p(2) hp] p(3) by simp
  qed
  have "valid E ?w' ?v'" "elems ?w' ?v' = []"
    using valid_small_vec[of "[]" E ?w' "dynamic_data v"] by simp_all
  then show ?thesis using cl True others
    by (simp add: contents_def capacity_def)
next
  case False
  from assms(1) obtain c where c: "capacity E w v = Some c" "sv_size v \<le> c"
    by (auto elim: valid_capacity)
  obtain w' v' where r: "in_place E w v [] (copies w) = (w', v')" by fastforce
  have cl: "clear E w v = Done (w', v')"
    using clear_exclusive[OF assms False] r by simp
  have fit: "length ([]::'a list) \<le> c" by simp
  note ip = in_place_ok[OF assms False c(1) fit r]
  have dc: "data_const w' v' = Some (replicate c None)"
    using ip(2,3,4) by (auto elim!: valid_capacity)
  show ?thesis using cl False ip c dc by (simp add: contents_def)
qed

theorem clear_spec_witness:
  "valid ex_env (ex_world 2) ex_vec \<and> alloc_ok (ex_world 2) \<and> shared (ex_world 2) ex_vec \<and>
   (\<exists>w' v'. clear ex_env (ex_world 2) ex_vec = Done (w', v') \<and> copies w' = 5 \<and>
      sv_size v' = 0 \<and> is_small v' \<and> capacity ex_env w' v' = Some 2 \<and>
      heap w' 0 = Some (ex_block 1) \<and> contents w' ex_vec = [Some 1, Some 2, Some 3])"
proof -
  have v: "valid ex_env (ex_world 2) ex_vec" by (simp add: ex_vec_valid)
  have a: "alloc_ok (ex_world 2)" by (rule ex_world_alloc_ok)
  have s: "shared (ex_world 2) ex_vec" by (simp add: ex_vec_shared)
  have c: "contents (ex_world 2) ex_vec = [Some 1, Some 2, Some 3]"
    by (simp add: contents_def index_const_def data_const_def deref_def ex_defs
          eval_nat_numeral upt_rec)
  have o: "own ex_vec = Some 0" by (simp add: own_def ex_defs)
  from clear_spec[OF v a] s obtain w' v' where
    r: "clear ex_env (ex_world 2) ex_vec = Done (w', v')" "copies w' = copies (ex_world 2)"
       "sv_size v' = 0" "is_small v'" "capacity ex_env w' v' = Some (SMALL_SIZE ex_env)"
       "heap w' = release (heap (ex_world 2)) (own ex_vec)"
       "\<forall>B. valid ex_env (ex_world 2) B \<and> own B = own ex_vec \<longrightarrow>
            valid ex_env w' B \<and> contents w' B = contents (ex_world 2) B"
    by auto
  from r(7) v have "contents w' ex_vec = contents (ex_world 2) ex_vec" by blast
  with r c o v a s show ?thesis
    by (simp add: release_def ex_defs)
qed

section \<open>\<^verbatim>\<open>reserve\<close> followed by \<^verbatim>\<open>shrink_to_fit\<close>\<close>

text \<open>
  Claim C8, as stated for every \<open>k\<close>, fails where the request for a block of \<open>k\<close>
  elements wraps around. With 8-byte elements \<^verbatim>\<open>reserve(2^61)\<close> asks for
  \<open>(16 + 8 * 2^61) mod 2^64 = 16\<close> bytes and then copies the three elements of the
  vector behind the 16-byte header: the program writes outside the block.
\<close>

theorem reserve_wraps_counterexample:
  "reserve ex_env (ex_world 1) ex_vec 2305843009213693952 = Abort"
  by (simp add: reserve_def ex_env_def ex_world_def ex_vec_def ex_block_def unfold_alloc
        numeral_3_eq_3)

text \<open>
  Claim C8, amended. On a well-formed vector and for every \<open>k\<close> such that blocks of \<open>k\<close>
  and of \<open>size()\<close> elements can be requested without wrap-around, \<^verbatim>\<open>reserve(k)\<close> and then
  \<^verbatim>\<open>shrink_to_fit()\<close> never stop the program, and either call leaves by an exception
  only if some copy constructor throws. When both return, the elements are those
  before the calls; if their number is at most \<open>SMALL_SIZE\<close> the vector is inline with
  capacity \<open>SMALL_SIZE\<close>, and otherwise its capacity equals its size.
\<close>

theorem reserve_shrink_to_fit:
  assumes v: "valid E w v" and al: "alloc_ok w" and fits: "fits E (max k (sv_size v))"
  shows "case reserve E w v k of
           Done (w1, v1) \<Rightarrow>
             (case shrink_to_fit E w1 v1 of
                Done (w2, v2) \<Rightarrow>
                  elems w2 v2 = elems w v \<and>
                  (sv_size v \<le> SMALL_SIZE E \<longrightarrow>
                     is_small v2 \<and> capacity E w2 v2 = Some (SMALL_SIZE E)) \<and>
                  (SMALL_SIZE E < sv_size v \<longrightarrow> capacity E w2 v2 = Some (sv_size v))
              | Threw _ \<Rightarrow> \<exists>j. copy_throws E j
              | Abort \<Rightarrow> False)
         | Threw _ \<Rightarrow> \<exists>j. copy_throws E j
         | Abort \<Rightarrow> False"
proof -
  have fk: "fits E k" and fs: "fits E (sv_size v)"
    using fits by (auto elim: fits_mono)
  show ?thesis
  proof (cases "reserve E w v k")
    case (Done s)
    obtain w1 v1 where s: "s = (w1, v1)" by (cases s)
    from reserve_spec[OF v al fk] Done s
    have st: "step_ok E w v w1 v1" and e: "elems w1 v1 = elems w v" by simp_all
    have sz: "sv_size v1 = sv_size v" using arg_cong[OF e, of length] by simp
    from fs sz have fs1: "fits E (sv_size v1)" by simp
    from shrink_to_fit_spec[OF step_ok_valid[OF st] step_ok_alloc[OF st] fs1] e sz Done s
    show ?thesis by (auto split: outcome.splits)
  next
    case (Threw s)
    with reserve_spec[OF v al fk] show ?thesis by (auto split: prod.splits)
  next
    case Abort
    with reserve_spec[OF v al fk] show ?thesis by simp
  qed
qed

theorem reserve_shrink_to_fit_witness:
  "valid ex_env (ex_world 2) ex_vec \<and> alloc_ok (ex_world 2) \<and>
   fits ex_env (max 7 (sv_size ex_vec)) \<and>
   (case reserve ex_env (ex_world 2) ex_vec 7 of
      Done (w1, v1) \<Rightarrow>
        (case shrink_to_fit ex_env w1 v1 of
           Done (w2, v2) \<Rightarrow> elems w2 v2 = [1, 2, 3] \<and> capacity ex_env w2 v2 = Some 3
         | _ \<Rightarrow> False)
    | _ \<Rightarrow> False)"
proof -
  have v: "valid ex_env (ex_world 2) ex_vec" by (simp add: ex_vec_valid)
  have a: "alloc_ok (ex_world 2)" by (rule ex_world_alloc_ok)
  have e: "elems (ex_world 2) ex_vec = [1, 2, 3]" by (simp add: ex_vec_elems)
  have n: "\<not> (\<exists>j. copy_throws ex_env j)" by (simp add: ex_env_def)
  have s: "sv_size ex_vec = 3" "SMALL_SIZE ex_env = 2" by (simp_all add: ex_defs)
  have f: "fits ex_env (max 7 (sv_size ex_vec))" by (simp add: ex_fits s)
  from reserve_shrink_to_fit[OF v a f] n e s v a f show ?thesis
    by (auto split: outcome.splits)
qed

section \<open>\<^verbatim>\<open>push_back\<close>\<close>




section \<open>\<^verbatim>\<open>insert\<close>\<close>

text \<open>
  Claim C9, as stated for every container, fails in two places. With inline capacity
  0 the empty vector is full; \<^verbatim>\<open>reserve(2 * 0)\<close> leaves the temporary inline, and its
  \<^verbatim>\<open>push_back\<close> fails the private constructor's \<^verbatim>\<open>assert(capacity > SMALL_SIZE)\<close>. And on
  \<open>ex_huge_vec\<close>, which is neither full nor shared, the value is constructed in a block
  that has room for no element.
\<close>

theorem insert_counterexample:
  "insert_vec ex_env0 ex_empty_world (new_vector ex_env0) 0 1 = Abort \<and>
   insert_vec ex_env (ex_huge_world 1) ex_huge_vec 0 1 = Abort"
  by (simp add: insert_vec_def reserve_def push_back.simps push_back_range.simps
        ex_env0_def ex_env_def ex_empty_world_def ex_huge_world_def
        ex_huge_vec_def new_vector_def unfold_alloc)

text \<open>
  Claim C9, amended. Let \<open>v\<close> be a well-formed vector (a heap block has as many slots as
  the capacity it records) and \<open>diff \<le> size\<close> the offset of the position. If \<open>v\<close> is
  full or its block is shared, and its capacity is positive and a block of the new
  capacity can be requested without wrap-around, \<^verbatim>\<open>insert\<close> gives it a block at an
  address that was free before, whose capacity is exactly the old capacity plus one
  when the block was shared and exactly twice the old capacity otherwise. If \<open>v\<close> is
  neither full nor shared, it keeps its representation, block and capacity, and
  nothing is allocated. In both cases the call does not stop the program, leaves by
  an exception only if some copy constructor throws, and when it returns the
  elements are the old prefix \<open>[0, diff)\<close>, then \<open>x\<close>, then the old suffix \<open>[diff, size)\<close>.
\<close>

theorem insert_places_value:
  assumes "valid E w v" and "alloc_ok w"
    and "capacity E w v = Some cap" and "diff \<le> sv_size v"
    and "sv_size v = cap \<or> shared w v \<longrightarrow>
           0 < cap \<and> fits E (if shared w v then cap + 1 else 2 * cap)"
  shows "case insert_vec E w v diff x of
           Done (w', v') \<Rightarrow> valid E w' v' \<and>
             elems w' v' = take diff (elems w v) @ x # drop diff (elems w v) \<and>
             (if sv_size v = cap \<or> shared w v then
                heap w (next_addr w) = None \<and> \<not> is_small v' \<and> own v' = Some (next_addr w) \<and>
                capacity E w' v' = Some (if shared w v then cap + 1 else 2 * cap)
              else
                is_small v' = is_small v \<and> own v' = own v \<and> capacity E w' v' = Some cap \<and>
                next_addr w' = next_addr w)
         | Threw (w', v') \<Rightarrow> \<exists>j. copy_throws E j
         | Abort \<Rightarrow> False"
proof (cases "insert_vec E w v diff x")
  case (Done s)
  obtain w' v' where s: "s = (w', v')" by (cases s)
  from insert_spec[OF assms, of x] Done s
  have st: "step_ok E w v w' v'" by simp
  from insert_spec[OF assms, of x] Done s step_ok_valid[OF st] alloc_ok_fresh[OF assms(2)]
  show ?thesis by simp
next
  case (Threw s)
  with insert_spec[OF assms, of x] show ?thesis by (auto split: prod.splits)
next
  case Abort
  with insert_spec[OF assms, of x] show ?thesis by simp
qed

theorem insert_places_value_witness:
  "valid ex_env (ex_world 2) ex_vec \<and> alloc_ok (ex_world 2) \<and>
   capacity ex_env (ex_world 2) ex_vec = Some 4 \<and> 1 \<le> sv_size ex_vec \<and>
   shared (ex_world 2) ex_vec \<and> fits ex_env (4 + 1) \<and>
   (case insert_vec ex_env (ex_world 2) ex_vec 1 9 of
      Done (w', v') \<Rightarrow> elems w' v' = [1, 9, 2, 3] \<and> \<not> is_small v' \<and>
         own v' = Some 1 \<and> capacity ex_env w' v' = Some 5
    | _ \<Rightarrow> False) \<and>
   valid ex_env (ex_world 1) ex_vec \<and> \<not> shared (ex_world 1) ex_vec \<and> sv_size ex_vec \<noteq> 4 \<and>
   (case insert_vec ex_env (ex_world 1) ex_vec 1 9 of
      Done (w', v') \<Rightarrow> elems w' v' = [1, 9, 2, 3] \<and> \<not> is_small v' \<and>
         own v' = Some 0 \<and> capacity ex_env w' v' = Some 4 \<and> next_addr w' = 1
    | _ \<Rightarrow> False)"
proof -
  have v: "valid ex_env (ex_world 2) ex_vec" "valid ex_env (ex_world 1) ex_vec"
    by (simp_all add: ex_vec_valid)
  have a: "alloc_ok (ex_world r)" for r by (rule ex_world_alloc_ok)
  have c: "capacity ex_env (ex_world r) ex_vec = Some 4" for r
    by (simp add: capacity_def deref_def ex_defs)
  have d: "1 \<le> sv_size ex_vec" by (simp add: ex_vec_def)
  have s: "shared (ex_world 2) ex_vec" "\<not> shared (ex_world 1) ex_vec"
    by (simp_all add: ex_vec_shared)
  have f: "fits ex_env (4 + 1)" by (simp add: ex_fits)
  have e: "elems (ex_world 2) ex_vec = [1, 2, 3]" "elems (ex_world 1) ex_vec = [1, 2, 3]"
    by (simp_all add: ex_vec_elems)
  have n: "\<not> (\<exists>j. copy_throws ex_env j)" by (simp add: ex_env_def)
  have na: "next_addr (ex_world r) = 1" for r by (simp add: ex_defs)
  have z: "sv_size ex_vec = 3" "is_small ex_vec = False" "own ex_vec = Some 0"
    by (simp_all add: ex_vec_def own_def)
  have one: "case insert_vec ex_env (ex_world 2) ex_vec 1 9 of
      Done (w', v') \<Rightarrow> elems w' v' = [1, 9, 2, 3] \<and> \<not> is_small v' \<and>
         own v' = Some 1 \<and> capacity ex_env w' v' = Some 5
    | _ \<Rightarrow> False"
    using insert_places_value[OF v(1) a c d, of 9] s e n na z f
    by (auto split: outcome.splits)
  have two: "case insert_vec ex_env (ex_world 1) ex_vec 1 9 of
      Done (w', v') \<Rightarrow> elems w' v' = [1, 9, 2, 3] \<and> \<not> is_small v' \<and>
         own v' = Some 0 \<and> capacity ex_env w' v' = Some 4 \<and> next_addr w' = 1
    | _ \<Rightarrow> False"
    using insert_places_value[OF v(2) a c d, of 9] s e n na z
    by (auto split: outcome.splits)
  from one two v a c d s f z show ?thesis by simp
qed

section \<open>Exceptions during copy assignment\<close>

text \<open>
  Claim C7 holds on the reallocating paths of \<^verbatim>\<open>push_back\<close> and \<^verbatim>\<open>insert\<close> and where a
  heap vector is assigned an inline one (lines 158-167 restore \<^verbatim>\<open>_dynamic_data\<close> in a
  handler), but not where both vectors of a copy assignment are inline (lines
  144-157). There \<^verbatim>\<open>_size\<close> and the elements beyond the common length are changed
  first and \<^verbatim>\<open>std::swap_ranges\<close> then runs on \<^verbatim>\<open>*this\<close> outside any handler, unlike the
  same step of \<^verbatim>\<open>swap\<close> (lines 333-338). For an element type whose \<^verbatim>\<open>std::swap\<close> copies,
  assigning \<open>[7, 8]\<close> to \<open>[1, 2]\<close> with a copy constructor that throws in the second
  \<^verbatim>\<open>std::swap\<close> leaves by the exception with \<^verbatim>\<open>*this\<close> holding \<open>[7, 2]\<close>.
\<close>

theorem assign_inline_throwing_swap:
  "operator_assign ex_swap_env ex_empty_world ex_this (Other ex_pair) =
     Threw (ex_empty_world\<lparr>copies := 4\<rparr>, ex_this\<lparr>static_data := [Some 7, Some 2]\<rparr>) \<and>
   elems ex_empty_world ex_this = [1, 2] \<and>
   elems (ex_empty_world\<lparr>copies := 4\<rparr>) (ex_this\<lparr>static_data := [Some 7, Some 2]\<rparr>) = [7, 2]"
  by (simp add: operator_assign_def assign.simps push_back.simps push_back_range.simps
        reserve_def swap_ranges_def swap_T_def ex_swap_env_def ex_empty_world_def ex_this_def
        ex_pair_def new_vector_def elems_def contents_def unfold_ops eval_nat_numeral upt_rec)

section \<open>Heap blocks are larger than the inline array\<close>

text \<open>
  Claim C10. Start from the empty store and let a program make any sequence of calls
  of the public members that returns to the caller each time (normally or by an
  exception), each call on any object. In the store it reaches, every heap block
  records a capacity strictly above \<open>SMALL_SIZE\<close>. So a vector whose capacity is defined
  there (inline, or holding a pointer to a live block) has capacity above \<open>SMALL_SIZE\<close>
  when it is heap-backed, and is inline exactly when its capacity is \<open>SMALL_SIZE\<close>.
\<close>

theorem heap_capacity_above_inline:
  assumes "run E empty_world cs = Some w"
  shows "(\<forall>a d. heap w a = Some d \<longrightarrow> SMALL_SIZE E < ds_capacity d) \<and>
         (\<forall>v c. capacity E w v = Some c \<longrightarrow>
            (\<not> is_small v \<longrightarrow> SMALL_SIZE E < c) \<and> (is_small v \<longleftrightarrow> c = SMALL_SIZE E))"
proof -
  from run_caps[OF caps_ok_empty assms] have c: "caps_ok E w" .
  then have "\<forall>a d. heap w a = Some d \<longrightarrow> SMALL_SIZE E < ds_capacity d"
    by (simp add: caps_ok_def)
  moreover have "(\<not> is_small v \<longrightarrow> SMALL_SIZE E < k) \<and> (is_small v \<longleftrightarrow> k = SMALL_SIZE E)"
    if "capacity E w v = Some k" for v k
    using capacity_caps[OF c that] that by (cases "is_small v") (auto simp: capacity_def)
  ultimately show ?thesis by blast
qed

theorem heap_capacity_above_inline_witness:
  "run ex_env empty_world
     [(new_vector ex_env, Push_back 1),
      (\<lparr>sv_size = 1, is_small = True, static_data = [Some 1, None], dynamic_data = None\<rparr>,
       Push_back 2),
      (\<lparr>sv_size = 2, is_small = True, static_data = [Some 1, Some 2], dynamic_data = None\<rparr>,
       Push_back 3)]
     = Some (ex_world 1) \<and>
   heap (ex_world 1) 0 = Some (ex_block 1) \<and> SMALL_SIZE ex_env < ds_capacity (ex_block 1) \<and>
   capacity ex_env (ex_world 1) ex_vec = Some 4 \<and> \<not> is_small ex_vec \<and> SMALL_SIZE ex_env < 4"
proof -
  have r: "run ex_env empty_world
     [(new_vector ex_env, Push_back 1),
      (\<lparr>sv_size = 1, is_small = True, static_data = [Some 1, None], dynamic_data = None\<rparr>,
       Push_back 2),
      (\<lparr>sv_size = 2, is_small = True, static_data = [Some 1, Some 2], dynamic_data = None\<rparr>,
       Push_back 3)]
     = Some (ex_world 1)"
    by (simp add: world_after_def empty_world_def push_back.simps assign.simps ex_defs
          unfold_ops eval_nat_numeral)
  have h: "heap (ex_world 1) 0 = Some (ex_block 1)" by (simp add: ex_defs)
  have c: "capacity ex_env (ex_world 1) ex_vec = Some 4"
    by (simp add: capacity_def deref_def ex_defs)
  have s: "\<not> is_small ex_vec" by (simp add: ex_vec_def)
  from heap_capacity_above_inline[OF r] r h c s show ?thesis by blast
qed

end
